theory Spec2Isabelle
  imports Main "HOL-Library.AList"
begin

section \<open>Values shared by all modules\<close>

text \<open>
  The program keeps its store as Python objects and reads and writes it as JSON. A JSON
  value is what \<^verbatim>\<open>json.load\<close> returns: \<^verbatim>\<open>None\<close>, a bool, a number, a string, a
  list, or a dict with string keys. A dict is an association list in insertion order whose
  keys are distinct; lookup is \<^const>\<open>map_of\<close>, assignment \<^verbatim>\<open>d[k] = v\<close> is
  \<^const>\<open>AList.update\<close> (an existing key keeps its place, a new key goes to the end) and
  \<^verbatim>\<open>d.pop(k, None)\<close> is \<^const>\<open>AList.delete\<close>. Numbers are integers here: the code
  looks at a number only to ask whether it is zero.
\<close>

datatype json =
    JNull
  | JBool bool
  | JNum int
  | JStr string
  | JArr "json list"
  | JObj "(string \<times> json) list"

type_synonym 'v dict = "(string \<times> 'v) list"

text \<open>Python's truth value of a JSON value, as used by \<^verbatim>\<open>not x\<close> and \<^verbatim>\<open>x or y\<close>.\<close>

fun truthy :: "json \<Rightarrow> bool" where
  "truthy JNull = False"
| "truthy (JBool b) = b"
| "truthy (JNum n) = (n \<noteq> 0)"
| "truthy (JStr s) = (s \<noteq> [])"
| "truthy (JArr xs) = (xs \<noteq> [])"
| "truthy (JObj kvs) = (kvs \<noteq> [])"

text \<open>\<^verbatim>\<open>d.get(k) or dflt\<close> and \<^verbatim>\<open>d.get(k, dflt) or dflt\<close>.\<close>

definition get_or :: "json dict \<Rightarrow> string \<Rightarrow> json \<Rightarrow> json" where
  "get_or d k dflt =
     (case map_of d k of
        None \<Rightarrow> dflt
      | Some v \<Rightarrow> if truthy v then v else dflt)"

text \<open>
  The exceptions the modelled code can raise. \<open>Ill_typed\<close> is not a Python exception: the
  dataclasses annotate \<^verbatim>\<open>id: str\<close>, \<^verbatim>\<open>name: str\<close>, \<^verbatim>\<open>children: List[str]\<close>,
  \<^verbatim>\<open>target_id: Optional[str]\<close> and \<^verbatim>\<open>type: Literal["folder", "file", "shortcut"]\<close>,
  and the records below have exactly these types. Python does not check annotations, so a
  document with, say, a number as a node name is stored as it is; the model stops with
  \<open>Ill_typed\<close> there, and no theorem speaks about such documents.
\<close>

datatype error = TypeError | AttributeError | KeyError | ImportError | RecursionError | Ill_typed

text \<open>
  Iterating a JSON value (\<^verbatim>\<open>list(x)\<close>, \<^verbatim>\<open>for s in x\<close>): a list gives its elements, a
  string its characters, a dict its keys; anything else raises \<^verbatim>\<open>TypeError\<close>.
\<close>

fun py_iter :: "json \<Rightarrow> error + json list" where
  "py_iter (JArr xs) = Inr xs"
| "py_iter (JStr s) = Inr (map (\<lambda>c. JStr [c]) s)"
| "py_iter (JObj kvs) = Inr (map (\<lambda>kv. JStr (fst kv)) kvs)"
| "py_iter JNull = Inl TypeError"
| "py_iter (JBool b) = Inl TypeError"
| "py_iter (JNum n) = Inl TypeError"

fun strs :: "json list \<Rightarrow> error + string list" where
  "strs [] = Inr []"
| "strs (JStr s # xs) = (case strs xs of Inl e \<Rightarrow> Inl e | Inr ss \<Rightarrow> Inr (s # ss))"
| "strs (x # xs) = Inl Ill_typed"

text \<open>
  \<^verbatim>\<open>uuid.uuid4()\<close> is an input of the model: the sequence of the identifiers it will
  return, \<open>s 0\<close> first. \<open>new_id\<close> takes the next one and returns the rest of the sequence.
  Where a property needs the identifiers to be new, the theorem says so.
\<close>

type_synonym ids = "nat \<Rightarrow> string"

definition new_id :: "ids \<Rightarrow> string \<times> ids" where
  "new_id s = (s 0, \<lambda>n. s (Suc n))"

section \<open>models.py\<close>

definition blank_rich_doc :: json where
  "blank_rich_doc = JObj [(''text'', JStr ''''), (''tags'', JArr [])]"

text \<open>
  \<^verbatim>\<open>FileContent\<close>: both fields hold raw JSON (\<^verbatim>\<open>Dict[str, Any]\<close> and a list of them);
  the code never checks their shape when it stores them.
\<close>

record file_content =
  read_doc :: json
  copy_docs :: json

definition FileContent :: file_content where
  "FileContent = \<lparr>read_doc = blank_rich_doc, copy_docs = JArr [blank_rich_doc]\<rparr>"

datatype node_type = Folder | File | Shortcut

text \<open>
  \<^verbatim>\<open>Node\<close>. The fields \<^verbatim>\<open>id\<close> and \<^verbatim>\<open>type\<close> are \<open>nid\<close> and \<open>ntype\<close> here.
\<close>

record node =
  nid :: string
  ntype :: node_type
  name :: string
  children :: "string list"
  content :: "file_content option"
  target_id :: "string option"

record database =
  quickcopy_root_id :: string
  favorites_root_id :: string
  nodes :: "node dict"

definition Node :: "string \<Rightarrow> node_type \<Rightarrow> string \<Rightarrow> node" where
  "Node i t n = \<lparr>nid = i, ntype = t, name = n, children = [], content = None, target_id = None\<rparr>"

definition blank_database :: "ids \<Rightarrow> database \<times> ids" where
  "blank_database s =
     (let (fav_id, s1) = new_id s;
          fav_root = Node fav_id Folder ''Favorites'';
          (qc_id, s2) = new_id s1;
          qc_root = Node qc_id Folder ''QuickCopy''
      in (\<lparr>quickcopy_root_id = qc_id, favorites_root_id = fav_id,
           nodes = AList.update qc_id qc_root [(fav_id, fav_root)]\<rparr>, s2))"

subsection \<open>Serialisation\<close>

definition type_str :: "node_type \<Rightarrow> string" where
  "type_str t = (case t of Folder \<Rightarrow> ''folder'' | File \<Rightarrow> ''file'' | Shortcut \<Rightarrow> ''shortcut'')"

definition opt_str :: "string option \<Rightarrow> json" where
  "opt_str t = (case t of None \<Rightarrow> JNull | Some s \<Rightarrow> JStr s)"

text \<open>The dict \<^verbatim>\<open>d\<close> that the loop of \<^verbatim>\<open>db_to_dict\<close> builds for one node.\<close>

definition node_to_dict :: "node \<Rightarrow> json" where
  "node_to_dict n =
     JObj [(''id'', JStr (nid n)),
           (''type'', JStr (type_str (ntype n))),
           (''name'', JStr (name n)),
           (''children'', JArr (map JStr (children n))),
           (''content'',
              (case content n of
                 Some c \<Rightarrow>
                   if ntype n = File
                   then JObj [(''read_doc'', read_doc c), (''copy_docs'', copy_docs c)]
                   else JNull
               | None \<Rightarrow> JNull)),
           (''target_id'', opt_str (target_id n))]"

definition db_to_dict :: "database \<Rightarrow> json" where
  "db_to_dict db =
     JObj [(''quickcopy_root_id'', JStr (quickcopy_root_id db)),
           (''favorites_root_id'', JStr (favorites_root_id db)),
           (''nodes'', JObj (map (\<lambda>kn. (fst kn, node_to_dict (snd kn))) (nodes db)))]"

subsection \<open>Upgrading file content\<close>

definition rich :: "json \<Rightarrow> json" where
  "rich s = JObj [(''text'', s), (''tags'', JArr [])]"

definition upgrade_legacy_content :: "json \<Rightarrow> error + file_content" where
  "upgrade_legacy_content content_raw =
     (case content_raw of
        JObj c \<Rightarrow>
          if map_of c ''read_doc'' \<noteq> None \<or> map_of c ''copy_docs'' \<noteq> None then
            (let rd = get_or c ''read_doc'' blank_rich_doc;
                 cd = get_or c ''copy_docs'' (JArr [blank_rich_doc]);
                 cd' = (if \<not> truthy cd then JArr [blank_rich_doc] else cd)
             in Inr \<lparr>read_doc = rd, copy_docs = cd'\<rparr>)
          else
            (let read_text = get_or c ''read_text'' (JStr '''');
                 copy_blocks = get_or c ''copy_blocks'' (JArr []);
                 copy_blocks' = (if \<not> truthy copy_blocks then JArr [JStr ''''] else copy_blocks)
             in case py_iter copy_blocks' of
                  Inl e \<Rightarrow> Inl e
                | Inr ss \<Rightarrow> Inr \<lparr>read_doc = rich read_text, copy_docs = JArr (map rich ss)\<rparr>)
      | _ \<Rightarrow> Inr FileContent)"

subsection \<open>Deserialisation\<close>

definition ebind :: "error + 'a \<Rightarrow> ('a \<Rightarrow> error + 'b) \<Rightarrow> error + 'b" where
  "ebind m f = (case m of Inl e \<Rightarrow> Inl e | Inr x \<Rightarrow> f x)"

text \<open>Reading a field at its annotated type.\<close>

definition str_field :: "json dict \<Rightarrow> string \<Rightarrow> string \<Rightarrow> error + string" where
  "str_field d k dflt =
     (case map_of d k of
        None \<Rightarrow> Inr dflt
      | Some (JStr s) \<Rightarrow> Inr s
      | Some _ \<Rightarrow> Inl Ill_typed)"

definition opt_str_field :: "json dict \<Rightarrow> string \<Rightarrow> error + string option" where
  "opt_str_field d k =
     (case map_of d k of
        None \<Rightarrow> Inr None
      | Some JNull \<Rightarrow> Inr None
      | Some (JStr s) \<Rightarrow> Inr (Some s)
      | Some _ \<Rightarrow> Inl Ill_typed)"

definition children_field :: "json dict \<Rightarrow> error + string list" where
  "children_field d =
     (case map_of d ''children'' of
        None \<Rightarrow> Inr []
      | Some v \<Rightarrow> ebind (py_iter v) strs)"

definition type_field :: "json \<Rightarrow> node_type" where
  "type_field t =
     (if t = JStr ''folder'' then Folder
      else if t = JStr ''file'' then File
      else if t = JStr ''shortcut'' then Shortcut
      else Folder)"

text \<open>
  The body of the first loop of \<^verbatim>\<open>db_from_dict\<close> for an entry \<^verbatim>\<open>d\<close> that is a dict:
  the content is upgraded first, then the arguments of \<^verbatim>\<open>Node(...)\<close> are evaluated.
\<close>

definition parse_node :: "string \<Rightarrow> json dict \<Rightarrow> error + node" where
  "parse_node node_id d =
     (let t = (case map_of d ''type'' of None \<Rightarrow> JStr ''folder'' | Some v \<Rightarrow> v)
      in ebind (if t = JStr ''file''
                then ebind (upgrade_legacy_content (get_or d ''content'' (JObj [])))
                       (\<lambda>c. Inr (Some c))
                else Inr None) (\<lambda>cont.
         ebind (children_field d) (\<lambda>cs.
         ebind (str_field d ''id'' node_id) (\<lambda>i.
         ebind (str_field d ''name'' ''Untitled'') (\<lambda>nm.
         ebind (opt_str_field d ''target_id'') (\<lambda>tgt.
           Inr \<lparr>nid = i, ntype = type_field t, name = nm, children = cs,
                content = cont, target_id = tgt\<rparr>))))))"

fun parse_nodes :: "json dict \<Rightarrow> node dict \<Rightarrow> error + node dict" where
  "parse_nodes [] acc = Inr acc"
| "parse_nodes ((node_id, JObj d) # rest) acc =
     ebind (parse_node node_id d) (\<lambda>n. parse_nodes rest (AList.update (nid n) n acc))"
| "parse_nodes ((node_id, other) # rest) acc = parse_nodes rest acc"

text \<open>\<^verbatim>\<open>(nodes_raw or {}).items()\<close>: only a dict has \<^verbatim>\<open>items\<close>.\<close>

definition items_of :: "json \<Rightarrow> error + json dict" where
  "items_of v =
     (if \<not> truthy v then Inr []
      else case v of JObj kvs \<Rightarrow> Inr kvs | _ \<Rightarrow> Inl AttributeError)"

text \<open>
  \<^verbatim>\<open>x and x in nodes\<close> for a value \<^verbatim>\<open>x = data.get(k)\<close>: \<open>Some s\<close> when \<open>x\<close> is the
  nonempty string \<open>s\<close> and a key of \<open>nodes\<close>. A list or a dict is unhashable, so the
  membership test raises; a number or \<^verbatim>\<open>True\<close> is no key of a dict with string keys.
\<close>

definition valid_key :: "json option \<Rightarrow> node dict \<Rightarrow> error + string option" where
  "valid_key x ns =
     (case x of
        None \<Rightarrow> Inr None
      | Some j \<Rightarrow>
          if \<not> truthy j then Inr None
          else (case j of
                  JStr s \<Rightarrow> Inr (if map_of ns s \<noteq> None then Some s else None)
                | JArr xs \<Rightarrow> Inl TypeError
                | JObj kvs \<Rightarrow> Inl TypeError
                | _ \<Rightarrow> Inr None))"

text \<open>
  The test of the loops over the children of the Favorites root:
  \<^verbatim>\<open>n and n.type == "shortcut" and n.target_id == file_id\<close> for \<^verbatim>\<open>n = nodes.get(cid)\<close>.
\<close>

definition is_shortcut_to :: "node dict \<Rightarrow> string \<Rightarrow> string \<Rightarrow> bool" where
  "is_shortcut_to ns file_id cid =
     (case map_of ns cid of
        None \<Rightarrow> False
      | Some n \<Rightarrow> ntype n = Shortcut \<and> target_id n = Some file_id)"

text \<open>
  \<^verbatim>\<open>nodes[new.id] = new; parent.children.append(new.id)\<close>, where \<^verbatim>\<open>parent\<close> is the
  object that was read from key \<open>pk\<close> before. If the new identifier is \<open>pk\<close> itself, the
  assignment replaces that object in the dict and the append changes an object that the
  dict no longer holds.
\<close>

definition store_and_append :: "node dict \<Rightarrow> string \<Rightarrow> node \<Rightarrow> node \<Rightarrow> node dict" where
  "store_and_append ns pk parent new =
     (let ns1 = AList.update (nid new) new ns
      in if nid new = pk then ns1
         else AList.update pk (parent\<lparr>children := children parent @ [nid new]\<rparr>) ns1)"

definition ensure_favorite_shortcut :: "database \<Rightarrow> string \<Rightarrow> ids \<Rightarrow> database \<times> ids" where
  "ensure_favorite_shortcut db file_id s =
     (case map_of (nodes db) (favorites_root_id db) of
        None \<Rightarrow> (db, s)
      | Some fav_root \<Rightarrow>
          if ntype fav_root \<noteq> Folder then (db, s)
          else if list_ex (is_shortcut_to (nodes db) file_id) (children fav_root) then (db, s)
          else (case map_of (nodes db) file_id of
                  None \<Rightarrow> (db, s)
                | Some target \<Rightarrow>
                    if ntype target \<noteq> File then (db, s)
                    else (let (i, s1) = new_id s;
                              sc = (Node i Shortcut (name target))\<lparr>target_id := Some file_id\<rparr>
                          in (db\<lparr>nodes := store_and_append (nodes db) (favorites_root_id db)
                                             fav_root sc\<rparr>, s1))))"

text \<open>
  The second loop of \<^verbatim>\<open>db_from_dict\<close>, with \<open>entry_id\<close> for \<^verbatim>\<open>raw.get("id", nid)\<close>.
  It runs after the first loop has returned, so an \<^verbatim>\<open>id\<close> field that is present is a
  string.
\<close>

definition entry_id :: "string \<Rightarrow> json dict \<Rightarrow> string" where
  "entry_id k raw = (case map_of raw ''id'' of Some (JStr i) \<Rightarrow> i | _ \<Rightarrow> k)"

fun migrate_pinned :: "json dict \<Rightarrow> database \<Rightarrow> ids \<Rightarrow> database \<times> ids" where
  "migrate_pinned [] db s = (db, s)"
| "migrate_pinned ((k, JObj raw) # rest) db s =
     (if map_of raw ''pinned'' = Some (JBool True)
      then (let file_id = entry_id k raw;
                (db1, s1) = ensure_favorite_shortcut db file_id s
            in migrate_pinned rest db1 s1)
      else migrate_pinned rest db s)"
| "migrate_pinned ((k, other) # rest) db s = migrate_pinned rest db s"

text \<open>\<^verbatim>\<open>db.nodes.update(nodes)\<close>.\<close>

definition dict_update :: "'v dict \<Rightarrow> 'v dict \<Rightarrow> 'v dict" where
  "dict_update d other = fold (\<lambda>kv. AList.update (fst kv) (snd kv)) other d"

definition append_child :: "string \<Rightarrow> string \<Rightarrow> node dict \<Rightarrow> node dict" where
  "append_child k c ns =
     (case map_of ns k of
        None \<Rightarrow> ns
      | Some n \<Rightarrow> AList.update k (n\<lparr>children := children n @ [c]\<rparr>) ns)"

definition db_from_dict :: "json \<Rightarrow> ids \<Rightarrow> error + database \<times> ids" where
  "db_from_dict data s =
     (case data of
        JObj dat \<Rightarrow>
          ebind (items_of (case map_of dat ''nodes'' of None \<Rightarrow> JObj [] | Some v \<Rightarrow> v)) (\<lambda>items.
          ebind (parse_nodes items []) (\<lambda>ns.
          ebind (valid_key (map_of dat ''quickcopy_root_id'') ns) (\<lambda>qc.
            case qc of
              None \<Rightarrow>
                (let (db, s1) = blank_database s
                 in ebind (valid_key (map_of dat ''root_id'') ns) (\<lambda>legacy.
                      let merged = dict_update (nodes db) ns
                      in case legacy of
                           None \<Rightarrow> Inr (db\<lparr>nodes := merged\<rparr>, s1)
                         | Some r \<Rightarrow>
                             (case map_of ns r of
                                None \<Rightarrow> Inr (db\<lparr>nodes := merged\<rparr>, s1)
                              | Some n \<Rightarrow>
                                  if ntype n = Folder
                                  then Inr (db\<lparr>nodes := append_child (quickcopy_root_id db) r merged\<rparr>, s1)
                                  else Inr (db\<lparr>nodes := merged\<rparr>, s1))))
            | Some qc_root \<Rightarrow>
                ebind (valid_key (map_of dat ''favorites_root_id'') ns) (\<lambda>fv.
                  case fv of
                    Some fav_root \<Rightarrow>
                      Inr (migrate_pinned items
                             \<lparr>quickcopy_root_id = qc_root, favorites_root_id = fav_root,
                              nodes = ns\<rparr> s)
                  | None \<Rightarrow>
                      (let (i, s1) = new_id s
                       in Inr (migrate_pinned items
                                 \<lparr>quickcopy_root_id = qc_root, favorites_root_id = i,
                                  nodes = AList.update i (Node i Folder ''Favorites'') ns\<rparr> s1))))))
      | _ \<Rightarrow> Inr (blank_database s))"

section \<open>utils.py\<close>

text \<open>
  \<^verbatim>\<open>str.strip()\<close> removes the characters for which \<^verbatim>\<open>str.isspace\<close> holds. A
  \<^typ>\<open>char\<close> is a code point below 256; among these the white space is
  9 to 13, 28 to 32, 133 and 160.
\<close>

definition is_space :: "char \<Rightarrow> bool" where
  "is_space c = ((of_char c :: nat) \<in> set [9, 10, 11, 12, 13, 28, 29, 30, 31, 32, 133, 160])"

definition strip :: "string \<Rightarrow> string" where
  "strip s = rev (dropWhile is_space (rev (dropWhile is_space s)))"

definition safe_name :: "string \<Rightarrow> string" where
  "safe_name nm = (let n = strip nm in if n \<noteq> [] then n else ''Untitled'')"

section \<open>ui\_explorer.py\<close>

text \<open>
  Of \<^verbatim>\<open>ExplorerView\<close> the model keeps the store and the folder on display. What the
  user does is an argument of each operation: \<open>sel\<close> is the key of the node that
  \<^verbatim>\<open>_get_selected_node_anywhere\<close> finds (\<open>None\<close> when it finds none), \<open>answer\<close> is
  what \<^verbatim>\<open>ask_text\<close> returns (\<open>None\<close> on Cancel), \<open>confirm\<close> is what
  \<^verbatim>\<open>messagebox.askyesno\<close> returns.
\<close>

record explorer_view =
  view_db :: database
  current_folder_id :: string

definition is_favorited :: "database \<Rightarrow> string \<Rightarrow> bool" where
  "is_favorited d file_id =
     (case map_of (nodes d) (favorites_root_id d) of
        None \<Rightarrow> False
      | Some fav_root \<Rightarrow>
          if ntype fav_root \<noteq> Folder then False
          else list_ex (is_shortcut_to (nodes d) file_id) (children fav_root))"

definition add_shortcut_for_target :: "database \<Rightarrow> string \<Rightarrow> ids \<Rightarrow> database \<times> ids" where
  "add_shortcut_for_target d file_id s =
     (case map_of (nodes d) file_id of
        None \<Rightarrow> (d, s)
      | Some target \<Rightarrow>
          if ntype target \<noteq> File then (d, s)
          else (case map_of (nodes d) (favorites_root_id d) of
                  None \<Rightarrow> (d, s)
                | Some fav_root \<Rightarrow>
                    if ntype fav_root \<noteq> Folder then (d, s)
                    else if list_ex (is_shortcut_to (nodes d) file_id) (children fav_root)
                    then (d, s)
                    else (let (i, s1) = new_id s;
                              sc = (Node i Shortcut (name target))\<lparr>target_id := Some file_id\<rparr>
                          in (d\<lparr>nodes := store_and_append (nodes d) (favorites_root_id d)
                                            fav_root sc\<rparr>, s1))))"

text \<open>
  The loop stops at the first child that is a shortcut to the file; \<^verbatim>\<open>list.remove\<close>
  deletes the first occurrence of that child.
\<close>

definition remove_shortcut_for_target :: "database \<Rightarrow> string \<Rightarrow> database" where
  "remove_shortcut_for_target d file_id =
     (case map_of (nodes d) (favorites_root_id d) of
        None \<Rightarrow> d
      | Some fav_root \<Rightarrow>
          if ntype fav_root \<noteq> Folder then d
          else (case find (is_shortcut_to (nodes d) file_id) (children fav_root) of
                  None \<Rightarrow> d
                | Some cid \<Rightarrow>
                    d\<lparr>nodes := AList.delete cid
                        (AList.update (favorites_root_id d)
                           (fav_root\<lparr>children := remove1 cid (children fav_root)\<rparr>) (nodes d))\<rparr>))"

definition remove_shortcut :: "database \<Rightarrow> string \<Rightarrow> database" where
  "remove_shortcut d shortcut_id =
     (let ns1 = (case map_of (nodes d) (favorites_root_id d) of
                   None \<Rightarrow> nodes d
                 | Some fav_root \<Rightarrow>
                     if ntype fav_root = Folder
                     then AList.update (favorites_root_id d)
                            (fav_root\<lparr>children := filter (\<lambda>c. c \<noteq> shortcut_id) (children fav_root)\<rparr>)
                            (nodes d)
                     else nodes d)
      in d\<lparr>nodes := AList.delete shortcut_id ns1\<rparr>)"

definition toggle_favorite_selected :: "database \<Rightarrow> string option \<Rightarrow> ids \<Rightarrow> database \<times> ids" where
  "toggle_favorite_selected d sel s =
     (case sel of
        None \<Rightarrow> (d, s)
      | Some k \<Rightarrow>
          (case map_of (nodes d) k of
             None \<Rightarrow> (d, s)
           | Some n \<Rightarrow>
               if ntype n = Shortcut then (remove_shortcut d (nid n), s)
               else if ntype n \<noteq> File then (d, s)
               else if is_favorited d (nid n) then (remove_shortcut_for_target d (nid n), s)
               else add_shortcut_for_target d (nid n) s))"

text \<open>
  \<^verbatim>\<open>nodes.get(current_folder_id) or nodes.get(quickcopy_root_id)\<close>: a \<^verbatim>\<open>Node\<close> object
  is always true, so \<^verbatim>\<open>or\<close> falls through only on \<^verbatim>\<open>None\<close>.
\<close>

definition parent_key :: "explorer_view \<Rightarrow> string" where
  "parent_key v =
     (if map_of (nodes (view_db v)) (current_folder_id v) \<noteq> None then current_folder_id v
      else quickcopy_root_id (view_db v))"

definition create_node :: "explorer_view \<Rightarrow> string option \<Rightarrow> (string \<Rightarrow> string \<Rightarrow> node) \<Rightarrow> ids
    \<Rightarrow> explorer_view \<times> ids" where
  "create_node v answer mk s =
     (case map_of (nodes (view_db v)) (parent_key v) of
        None \<Rightarrow> (v, s)
      | Some parent \<Rightarrow>
          if ntype parent \<noteq> Folder then (v, s)
          else (case answer of
                  None \<Rightarrow> (v, s)
                | Some nm \<Rightarrow>
                    (let (i, s1) = new_id s;
                         new_node = mk i (safe_name nm)
                     in (v\<lparr>view_db := (view_db v)\<lparr>nodes :=
                            store_and_append (nodes (view_db v)) (parent_key v) parent new_node\<rparr>\<rparr>,
                         s1))))"

definition create_folder :: "explorer_view \<Rightarrow> string option \<Rightarrow> ids \<Rightarrow> explorer_view \<times> ids" where
  "create_folder v answer s = create_node v answer (\<lambda>i nm. Node i Folder nm) s"

definition create_file :: "explorer_view \<Rightarrow> string option \<Rightarrow> ids \<Rightarrow> explorer_view \<times> ids" where
  "create_file v answer s =
     create_node v answer
       (\<lambda>i nm. (Node i File nm)\<lparr>content :=
                  Some \<lparr>read_doc = blank_rich_doc, copy_docs = JArr [blank_rich_doc]\<rparr>\<rparr>) s"

text \<open>The loop of \<^verbatim>\<open>rename_selected\<close> over the children of the Favorites root.\<close>

definition sync_shortcut_names :: "string \<Rightarrow> string \<Rightarrow> string list \<Rightarrow> node dict \<Rightarrow> node dict" where
  "sync_shortcut_names file_id new_name cs ns =
     fold (\<lambda>cid m.
             case map_of m cid of
               None \<Rightarrow> m
             | Some sc \<Rightarrow>
                 if ntype sc = Shortcut \<and> target_id sc = Some file_id
                 then AList.update cid (sc\<lparr>name := new_name\<rparr>) m
                 else m) cs ns"

text \<open>
  The node that is renamed: the selected one, or the target of a selected shortcut when
  that target is in the store. The result is the key under which the node is stored,
  with the node.
\<close>

definition rename_subject :: "database \<Rightarrow> string \<Rightarrow> node \<Rightarrow> string \<times> node" where
  "rename_subject d k n =
     (if ntype n = Shortcut
      then (case target_id n of
              None \<Rightarrow> (k, n)
            | Some t \<Rightarrow> (case map_of (nodes d) t of None \<Rightarrow> (k, n) | Some tn \<Rightarrow> (t, tn)))
      else (k, n))"

definition rename_selected :: "database \<Rightarrow> string option \<Rightarrow> string option \<Rightarrow> database" where
  "rename_selected d sel answer =
     (case sel of
        None \<Rightarrow> d
      | Some k \<Rightarrow>
          (case map_of (nodes d) k of
             None \<Rightarrow> d
           | Some n0 \<Rightarrow>
               if nid n0 = favorites_root_id d \<or> nid n0 = quickcopy_root_id d then d
               else (let (k1, n1) = rename_subject d k n0
                     in case answer of
                          None \<Rightarrow> d
                        | Some new_name \<Rightarrow>
                            (let n2 = n1\<lparr>name := safe_name new_name\<rparr>;
                                 ns1 = AList.update k1 n2 (nodes d)
                             in if ntype n2 = File
                                then (case map_of ns1 (favorites_root_id d) of
                                        None \<Rightarrow> d\<lparr>nodes := ns1\<rparr>
                                      | Some fav_root \<Rightarrow>
                                          if ntype fav_root = Folder
                                          then d\<lparr>nodes := sync_shortcut_names (nid n2) (name n2)
                                                             (children fav_root) ns1\<rparr>
                                          else d\<lparr>nodes := ns1\<rparr>)
                                else d\<lparr>nodes := ns1\<rparr>))))"

text \<open>
  \<^verbatim>\<open>_find_parent_folder\<close>: the first folder, in the order of the dict, whose children
  contain the identifier; returned with its key.
\<close>

definition find_parent_folder :: "node dict \<Rightarrow> string \<Rightarrow> (string \<times> node) option" where
  "find_parent_folder ns child_id =
     find (\<lambda>kn. ntype (snd kn) = Folder \<and> child_id \<in> set (children (snd kn))) ns"

text \<open>
  \<^verbatim>\<open>_delete_subtree\<close> recurses through the children of folders and stops only at
  identifiers that are no longer in the store. The first argument bounds the depth of the
  recursion, as the interpreter's recursion limit does; \<open>None\<close> is
  \<^verbatim>\<open>RecursionError\<close>.
\<close>

fun delete_subtree :: "nat \<Rightarrow> string \<Rightarrow> node dict \<Rightarrow> node dict option" where
  "delete_subtree 0 node_id ns = None"
| "delete_subtree (Suc fuel) node_id ns =
     (case map_of ns node_id of
        None \<Rightarrow> Some ns
      | Some n \<Rightarrow>
          map_option (AList.delete node_id)
            (if ntype n = Folder
             then fold (\<lambda>cid acc. Option.bind acc (delete_subtree fuel cid)) (children n) (Some ns)
             else Some ns))"

text \<open>
  The steps of \<^verbatim>\<open>delete_selected\<close> between the confirmation and the call of
  \<^verbatim>\<open>_delete_subtree\<close>: the node is taken out of the children of the parent that
  \<^verbatim>\<open>_find_parent_folder\<close> finds, and the folder on display moves to that parent, or
  to the QuickCopy root, when it is the folder that is deleted.
\<close>

definition unlink_from_parent :: "database \<Rightarrow> string \<Rightarrow> database" where
  "unlink_from_parent d node_id =
     (case find_parent_folder (nodes d) node_id of
        None \<Rightarrow> d
      | Some (pk, p) \<Rightarrow>
          d\<lparr>nodes := AList.update pk
              (p\<lparr>children := filter (\<lambda>cid. cid \<noteq> node_id) (children p)\<rparr>) (nodes d)\<rparr>)"

definition retarget :: "explorer_view \<Rightarrow> node \<Rightarrow> string" where
  "retarget v n =
     (if ntype n = Folder \<and> nid n = current_folder_id v
      then (case find_parent_folder (nodes (view_db v)) (nid n) of
              None \<Rightarrow> quickcopy_root_id (view_db v)
            | Some (pk, p) \<Rightarrow>
                if ntype p = Folder then nid p else quickcopy_root_id (view_db v))
      else current_folder_id v)"

definition delete_selected :: "nat \<Rightarrow> explorer_view \<Rightarrow> string option \<Rightarrow> bool \<Rightarrow> error + explorer_view" where
  "delete_selected fuel v sel confirm =
     (let d = view_db v
      in case sel of
           None \<Rightarrow> Inr v
         | Some k \<Rightarrow>
             (case map_of (nodes d) k of
                None \<Rightarrow> Inr v
              | Some n \<Rightarrow>
                  if nid n = favorites_root_id d \<or> nid n = quickcopy_root_id d then Inr v
                  else if ntype n = Shortcut
                  then (if \<not> confirm then Inr v
                        else Inr (v\<lparr>view_db := remove_shortcut d (nid n)\<rparr>))
                  else if \<not> confirm then Inr v
                  else (let d1 = unlink_from_parent d (nid n);
                            d2 = (if ntype n = File then remove_shortcut_for_target d1 (nid n)
                                  else d1)
                        in case delete_subtree fuel (nid n) (nodes d2) of
                             None \<Rightarrow> Inl RecursionError
                           | Some ns \<Rightarrow>
                               Inr \<lparr>view_db = d2\<lparr>nodes := ns\<rparr>,
                                    current_folder_id = retarget v n\<rparr>)))"

subsection \<open>Import of a whole store\<close>

text \<open>
  The first loop of \<^verbatim>\<open>import_bundle\<close>: an incoming identifier gets a new one only if
  it is a key of the store.
\<close>

fun build_id_map :: "string list \<Rightarrow> node dict \<Rightarrow> string dict \<Rightarrow> ids \<Rightarrow> string dict \<times> ids" where
  "build_id_map [] ns m s = (m, s)"
| "build_id_map (old_id # rest) ns m s =
     (if map_of ns old_id \<noteq> None
      then (let (i, s1) = new_id s in build_id_map rest ns (AList.update old_id i m) s1)
      else build_id_map rest ns (AList.update old_id old_id m) s)"

fun insert_copies :: "node dict \<Rightarrow> string dict \<Rightarrow> node dict \<Rightarrow> error + node dict" where
  "insert_copies [] m ns = Inr ns"
| "insert_copies ((old_id, n) # rest) m ns =
     (case map_of m old_id of
        None \<Rightarrow> Inl KeyError
      | Some new \<Rightarrow>
          insert_copies rest m
            (AList.update new
               \<lparr>nid = new, ntype = ntype n, name = name n, children = [], content = content n,
                target_id = (if ntype n = Shortcut
                             then (case target_id n of None \<Rightarrow> None | Some t \<Rightarrow> map_of m t)
                             else target_id n)\<rparr> ns))"

text \<open>\<^verbatim>\<open>[id_map[c] for c in cs if c in id_map]\<close>.\<close>

definition remap :: "string dict \<Rightarrow> string list \<Rightarrow> string list" where
  "remap m cs = List.map_filter (map_of m) cs"

fun relink_children :: "node dict \<Rightarrow> string dict \<Rightarrow> node dict \<Rightarrow> error + node dict" where
  "relink_children [] m ns = Inr ns"
| "relink_children ((old_id, n) # rest) m ns =
     (if ntype n \<noteq> Folder then relink_children rest m ns
      else (case map_of m old_id of
              None \<Rightarrow> Inl KeyError
            | Some new \<Rightarrow>
                (case map_of ns new of
                   None \<Rightarrow> Inl KeyError
                 | Some tgt \<Rightarrow>
                     relink_children rest m
                       (AList.update new (tgt\<lparr>children := remap m (children n)\<rparr>) ns))))"

definition merge_children :: "string list \<Rightarrow> string list \<Rightarrow> string list" where
  "merge_children mine incoming =
     fold (\<lambda>cid acc. if cid \<in> set acc then acc else acc @ [cid]) incoming mine"

text \<open>
  \<open>raw\<close> is the value read from the chosen file. An exception of \<^verbatim>\<open>db_from_dict\<close> is
  caught and leaves the store as it was; the lookups after the \<^verbatim>\<open>try\<close> block are
  not guarded.
\<close>

definition attach_key :: "explorer_view \<Rightarrow> node dict \<Rightarrow> error + string" where
  "attach_key v ns =
     (let fallback = (if map_of ns (quickcopy_root_id (view_db v)) \<noteq> None
                      then Inr (quickcopy_root_id (view_db v)) else Inl KeyError)
      in case map_of ns (current_folder_id v) of
           None \<Rightarrow> fallback
         | Some a \<Rightarrow> if ntype a = Folder then Inr (current_folder_id v) else fallback)"

definition attach_quickcopy :: "string dict \<Rightarrow> database \<Rightarrow> string \<Rightarrow> node dict \<Rightarrow> node dict" where
  "attach_quickcopy id_map incoming attach_under ns =
     (case map_of id_map (quickcopy_root_id incoming) of
        None \<Rightarrow> ns
      | Some qc_in \<Rightarrow>
          if qc_in \<noteq> [] \<and> map_of ns qc_in \<noteq> None then append_child attach_under qc_in ns
          else ns)"

definition merge_favorites :: "string dict \<Rightarrow> database \<Rightarrow> string \<Rightarrow> node dict \<Rightarrow> error + node dict" where
  "merge_favorites id_map incoming my_fav_id ns =
     (case map_of id_map (favorites_root_id incoming) of
        None \<Rightarrow> Inr ns
      | Some fav_in \<Rightarrow>
          if fav_in = [] then Inr ns
          else (case map_of ns fav_in of
                  None \<Rightarrow> Inr ns
                | Some incoming_fav_folder \<Rightarrow>
                    (case map_of ns my_fav_id of
                       None \<Rightarrow> Inl KeyError
                     | Some my_fav \<Rightarrow>
                         Inr (AList.update my_fav_id
                                (my_fav\<lparr>children := merge_children (children my_fav)
                                           (children incoming_fav_folder)\<rparr>) ns))))"

definition merge_incoming :: "explorer_view \<Rightarrow> database \<Rightarrow> ids \<Rightarrow> error + explorer_view \<times> ids" where
  "merge_incoming v incoming s =
     (let d = view_db v;
          (id_map, s1) = build_id_map (map fst (nodes incoming)) (nodes d) [] s
      in ebind (insert_copies (nodes incoming) id_map (nodes d)) (\<lambda>ns1.
         ebind (relink_children (nodes incoming) id_map ns1) (\<lambda>ns2.
         ebind (attach_key v ns2) (\<lambda>attach_under.
         ebind (merge_favorites id_map incoming (favorites_root_id d)
                  (attach_quickcopy id_map incoming attach_under ns2)) (\<lambda>ns4.
           Inr (v\<lparr>view_db := d\<lparr>nodes := ns4\<rparr>\<rparr>, s1))))))"

definition import_bundle :: "explorer_view \<Rightarrow> json \<Rightarrow> ids \<Rightarrow> error + explorer_view \<times> ids" where
  "import_bundle v raw s =
     (case db_from_dict raw s of
        Inl Ill_typed \<Rightarrow> Inl Ill_typed
      | Inl e \<Rightarrow> Inr (v, s)
      | Inr (incoming, s1) \<Rightarrow> merge_incoming v incoming s1)"

section \<open>bundle\_io.py\<close>

text \<open>
  \<^verbatim>\<open>_collect_subtree\<close>: the inner function \<^verbatim>\<open>walk\<close> appends to \<^verbatim>\<open>out\<close> and
  recurses through the children of folders. As for \<open>delete_subtree\<close>, the first argument
  bounds the depth of the recursion and \<open>None\<close> is \<^verbatim>\<open>RecursionError\<close>.
\<close>

fun walk :: "nat \<Rightarrow> node dict \<Rightarrow> string \<Rightarrow> string list \<Rightarrow> string list option" where
  "walk 0 ns i out = None"
| "walk (Suc fuel) ns i out =
     (case map_of ns i of
        None \<Rightarrow> Some out
      | Some n \<Rightarrow>
          if ntype n = Folder
          then fold (\<lambda>cid acc. Option.bind acc (walk fuel ns cid)) (children n) (Some (out @ [i]))
          else Some (out @ [i]))"

definition collect_subtree :: "nat \<Rightarrow> database \<Rightarrow> string \<Rightarrow> string list option" where
  "collect_subtree fuel d node_id = walk fuel (nodes d) node_id []"

text \<open>
  The entry that \<^verbatim>\<open>export_bundle\<close> writes for one node. For a node that is not a folder
  it reads \<^verbatim>\<open>n.content.read_rich\<close> and \<^verbatim>\<open>n.content.copy_blocks\<close> when the node has
  content; \<^verbatim>\<open>FileContent\<close> has the attributes \<^verbatim>\<open>read_doc\<close> and \<^verbatim>\<open>copy_docs\<close>
  only, so this raises \<^verbatim>\<open>AttributeError\<close>. The entry has no \<^verbatim>\<open>target_id\<close>.
\<close>

definition export_entry :: "node \<Rightarrow> error + json" where
  "export_entry n =
     (if ntype n = Folder
      then Inr (JObj [(''id'', JStr (nid n)),
                      (''type'', JStr (type_str (ntype n))),
                      (''name'', JStr (name n)),
                      (''children'', JArr (map JStr (children n))),
                      (''content'', JNull)])
      else (case content n of
              Some c \<Rightarrow> Inl AttributeError
            | None \<Rightarrow>
                Inr (JObj [(''id'', JStr (nid n)),
                           (''type'', JStr (type_str (ntype n))),
                           (''name'', JStr (name n)),
                           (''children'', JArr (map JStr (children n))),
                           (''content'',
                              JObj [(''read_rich'', blank_rich_doc),
                                    (''copy_blocks'', JArr [blank_rich_doc])])])))"

fun export_nodes :: "string list \<Rightarrow> node dict \<Rightarrow> json dict \<Rightarrow> error + json dict" where
  "export_nodes [] ns acc = Inr acc"
| "export_nodes (i # rest) ns acc =
     (case map_of ns i of
        None \<Rightarrow> Inl KeyError
      | Some n \<Rightarrow> ebind (export_entry n) (\<lambda>e. export_nodes rest ns (AList.update i e acc)))"

definition export_bundle :: "nat \<Rightarrow> database \<Rightarrow> string \<Rightarrow> error + json" where
  "export_bundle fuel d folder_id =
     (case collect_subtree fuel d folder_id of
        None \<Rightarrow> Inl RecursionError
      | Some ids \<Rightarrow>
          ebind (export_nodes ids (nodes d) []) (\<lambda>ns.
            Inr (JObj [(''bundle_root_id'', JStr folder_id), (''nodes'', JObj ns)])))"

text \<open>The first loop of \<^verbatim>\<open>import_bundle_into_folder\<close>: every key gets a new identifier.\<close>

fun fresh_id_map :: "string list \<Rightarrow> string dict \<Rightarrow> ids \<Rightarrow> string dict \<times> ids" where
  "fresh_id_map [] m s = (m, s)"
| "fresh_id_map (old_id # rest) m s =
     (let (i, s1) = new_id s in fresh_id_map rest (AList.update old_id i m) s1)"

text \<open>
  \<^verbatim>\<open>[id_map[c] for c in d.get("children", []) if c in id_map]\<close> over the elements of
  the list: a list or a dict cannot be looked up in a dict, a number is no key of it.
\<close>

fun bundle_children :: "json list \<Rightarrow> string dict \<Rightarrow> error + string list" where
  "bundle_children [] m = Inr []"
| "bundle_children (JStr c # cs) m =
     ebind (bundle_children cs m) (\<lambda>r. Inr (case map_of m c of None \<Rightarrow> r | Some i \<Rightarrow> i # r))"
| "bundle_children (JArr xs # cs) m = Inl TypeError"
| "bundle_children (JObj kvs # cs) m = Inl TypeError"
| "bundle_children (x # cs) m = bundle_children cs m"

text \<open>
  The second loop. For an entry of type \<^verbatim>\<open>"file"\<close> it runs
  \<^verbatim>\<open>from models import FileContent, blank_rich\<close>; \<^verbatim>\<open>models.py\<close> defines no
  \<^verbatim>\<open>blank_rich\<close>, so this raises \<^verbatim>\<open>ImportError\<close>. The node is built without a
  \<^verbatim>\<open>target_id\<close>.
\<close>

fun import_nodes :: "json dict \<Rightarrow> string dict \<Rightarrow> node dict \<Rightarrow> error + node dict" where
  "import_nodes [] m ns = Inr ns"
| "import_nodes ((old_id, JObj d) # rest) m ns =
     (case map_of m old_id of
        None \<Rightarrow> Inl KeyError
      | Some newnid \<Rightarrow>
          (let t = (case map_of d ''type'' of None \<Rightarrow> JStr ''folder'' | Some x \<Rightarrow> x)
           in ebind (str_field d ''name'' ''Imported'') (\<lambda>nm.
              ebind (ebind (case map_of d ''children'' of None \<Rightarrow> Inr [] | Some x \<Rightarrow> py_iter x)
                       (\<lambda>xs. bundle_children xs m)) (\<lambda>cs.
                if t = JStr ''file'' then Inl ImportError
                else if t = JStr ''folder''
                then import_nodes rest m
                       (AList.update newnid ((Node newnid Folder nm)\<lparr>children := cs\<rparr>) ns)
                else if t = JStr ''shortcut''
                then import_nodes rest m (AList.update newnid (Node newnid Shortcut nm) ns)
                else Inl Ill_typed))))"
| "import_nodes ((old_id, other) # rest) m ns = Inl AttributeError"

definition import_bundle_into_folder ::
    "database \<Rightarrow> json \<Rightarrow> string \<Rightarrow> ids \<Rightarrow> error + (bool \<times> string) \<times> database \<times> ids" where
  "import_bundle_into_folder d bundle target_folder_id s =
     (let invalid = Inr ((False, ''Target folder is invalid.''), d, s);
          missing = Inr ((False, ''Bundle is missing required data.''), d, s)
      in case map_of (nodes d) target_folder_id of
           None \<Rightarrow> invalid
         | Some tf \<Rightarrow>
             if ntype tf \<noteq> Folder then invalid
             else (case bundle of
                     JObj b \<Rightarrow>
                       (let nodes_raw = (case map_of b ''nodes'' of None \<Rightarrow> JObj [] | Some x \<Rightarrow> x);
                            bundle_root_id = get_or b ''bundle_root_id'' JNull
                        in if \<not> truthy nodes_raw \<or> \<not> truthy bundle_root_id then missing
                           else (case (nodes_raw, bundle_root_id) of
                                   (JObj raw, JStr r) \<Rightarrow>
                                     if map_of raw r = None then missing
                                     else (let (id_map, s1) = fresh_id_map (map fst raw) [] s
                                           in ebind (import_nodes raw id_map (nodes d)) (\<lambda>ns1.
                                                case map_of id_map r of
                                                  None \<Rightarrow> Inl KeyError
                                                | Some imported_root_new \<Rightarrow>
                                                    if map_of ns1 target_folder_id = None
                                                    then Inl KeyError
                                                    else Inr ((True, ''Imported.''),
                                                              d\<lparr>nodes := append_child target_folder_id
                                                                            imported_root_new ns1\<rparr>,
                                                              s1)))
                                 | _ \<Rightarrow> Inl Ill_typed))
                   | _ \<Rightarrow> Inl AttributeError))"

section \<open>ui\_file\_view.py\<close>

text \<open>
  \<^verbatim>\<open>FileView._remove_block\<close> on the list of the copy sections on display;
  \<open>locked\<close> is the lock flag of the file.
\<close>

definition remove_block :: "bool \<Rightarrow> 'a list \<Rightarrow> int \<Rightarrow> 'a list" where
  "remove_block locked block_widgets idx =
     (if locked then block_widgets
      else if length block_widgets \<le> 1 then block_widgets
      else if idx < 0 \<or> idx \<ge> int (length block_widgets) then block_widgets
      else take (nat idx) block_widgets @ drop (Suc (nat idx)) block_widgets)"

text \<open>
  \<^verbatim>\<open>FileView._is_favorited\<close> and \<^verbatim>\<open>FileView._toggle_favorite\<close>; \<open>file_id\<close> is
  \<^verbatim>\<open>self.file_id\<close>, \<open>None\<close> while no file is open.
\<close>

definition fv_is_favorited :: "database \<Rightarrow> string option \<Rightarrow> bool" where
  "fv_is_favorited d file_id =
     (case file_id of
        None \<Rightarrow> False
      | Some f \<Rightarrow>
          if f = [] then False
          else (case map_of (nodes d) (favorites_root_id d) of
                  None \<Rightarrow> False
                | Some fav_root \<Rightarrow>
                    if ntype fav_root \<noteq> Folder then False
                    else list_ex (is_shortcut_to (nodes d) f) (children fav_root)))"

definition fv_toggle_favorite :: "database \<Rightarrow> string option \<Rightarrow> ids \<Rightarrow> database \<times> ids" where
  "fv_toggle_favorite d file_id s =
     (case file_id of
        None \<Rightarrow> (d, s)
      | Some f \<Rightarrow>
          if f = [] then (d, s)
          else (case map_of (nodes d) (favorites_root_id d) of
                  None \<Rightarrow> (d, s)
                | Some fav_root \<Rightarrow>
                    if ntype fav_root \<noteq> Folder then (d, s)
                    else if fv_is_favorited d file_id
                    then (case find (is_shortcut_to (nodes d) f) (children fav_root) of
                            None \<Rightarrow> (d, s)
                          | Some cid \<Rightarrow>
                              (d\<lparr>nodes := AList.delete cid
                                   (AList.update (favorites_root_id d)
                                      (fav_root\<lparr>children := remove1 cid (children fav_root)\<rparr>)
                                      (nodes d))\<rparr>, s))
                    else (case map_of (nodes d) f of
                            None \<Rightarrow> (d, s)
                          | Some target \<Rightarrow>
                              if ntype target \<noteq> File then (d, s)
                              else (let (i, s1) = new_id s;
                                        sc = (Node i Shortcut (name target))\<lparr>target_id := Some f\<rparr>
                                    in (d\<lparr>nodes := store_and_append (nodes d) (favorites_root_id d)
                                                      fav_root sc\<rparr>, s1)))))"

section \<open>Properties of a store\<close>

text \<open>A property of every entry of the node dict, given its key.\<close>

definition all_nodes :: "(string \<Rightarrow> node \<Rightarrow> bool) \<Rightarrow> node dict \<Rightarrow> bool" where
  "all_nodes Q ns = list_all (\<lambda>kn. Q (fst kn) (snd kn)) ns"

text \<open>Every node is stored under its own identifier: \<^verbatim>\<open>db.nodes[k].id == k\<close>.\<close>

definition key_consistent :: "node dict \<Rightarrow> bool" where
  "key_consistent ns = all_nodes (\<lambda>k n. nid n = k) ns"

text \<open>A file node carries content whose \<^verbatim>\<open>copy_docs\<close> is not empty.\<close>

definition has_copy_docs :: "node \<Rightarrow> bool" where
  "has_copy_docs n =
     (ntype n \<noteq> File \<or> (case content n of None \<Rightarrow> False | Some c \<Rightarrow> truthy (copy_docs c)))"

definition absent_or_empty :: "json option \<Rightarrow> bool" where
  "absent_or_empty v = (v = None \<or> v = Some (JArr []))"

text \<open>
  What the round trip through \<^verbatim>\<open>db_to_dict\<close> and \<^verbatim>\<open>db_from_dict\<close> needs of a node:
  content on a file and on no other node, and both documents of the content true in
  Python's sense (\<^verbatim>\<open>x or default\<close> replaces a false one).
\<close>

definition roundtrip_node :: "node \<Rightarrow> bool" where
  "roundtrip_node n =
     (case content n of
        None \<Rightarrow> ntype n \<noteq> File
      | Some c \<Rightarrow> ntype n = File \<and> truthy (read_doc c) \<and> truthy (copy_docs c))"

text \<open>
  And of a store: the keys are distinct (it is a dict), every node is stored under its own
  identifier, both root identifiers are nonempty strings and keys of the store.
\<close>

definition roundtrip_db :: "database \<Rightarrow> bool" where
  "roundtrip_db d =
     (distinct (map fst (nodes d)) \<and> key_consistent (nodes d)
      \<and> quickcopy_root_id d \<noteq> [] \<and> map_of (nodes d) (quickcopy_root_id d) \<noteq> None
      \<and> favorites_root_id d \<noteq> [] \<and> map_of (nodes d) (favorites_root_id d) \<noteq> None
      \<and> list_all (\<lambda>kn. roundtrip_node (snd kn)) (nodes d))"

text \<open>
  Well-formedness as the round-trip law of the specification words it: both roots are
  present as folder nodes and every file node carries content.
\<close>

definition is_folder_at :: "node dict \<Rightarrow> string \<Rightarrow> bool" where
  "is_folder_at ns k = (case map_of ns k of None \<Rightarrow> False | Some n \<Rightarrow> ntype n = Folder)"

definition is_file_at :: "node dict \<Rightarrow> string \<Rightarrow> bool" where
  "is_file_at ns k = (case map_of ns k of None \<Rightarrow> False | Some n \<Rightarrow> ntype n = File)"

definition stated_well_formed :: "database \<Rightarrow> bool" where
  "stated_well_formed d =
     (is_folder_at (nodes d) (quickcopy_root_id d) \<and> is_folder_at (nodes d) (favorites_root_id d)
      \<and> list_all (\<lambda>kn. ntype (snd kn) \<noteq> File \<or> content (snd kn) \<noteq> None) (nodes d))"

text \<open>
  The identifiers that \<^verbatim>\<open>uuid4\<close> will return are new for a store: no two of them are
  equal and none is a key of the store.
\<close>

definition fresh :: "ids \<Rightarrow> node dict \<Rightarrow> bool" where
  "fresh s ns = (inj s \<and> (\<forall>n. s n \<notin> fst ` set ns))"

text \<open>
  The number of the children of the Favorites root that are shortcuts to a file, and an
  identifier that occurs nowhere in a store, neither as a key nor as a child.
\<close>

definition shortcut_count :: "database \<Rightarrow> string \<Rightarrow> nat" where
  "shortcut_count d f =
     (case map_of (nodes d) (favorites_root_id d) of
        None \<Rightarrow> 0
      | Some fav \<Rightarrow> length (filter (is_shortcut_to (nodes d) f) (children fav)))"

definition unused :: "string \<Rightarrow> node dict \<Rightarrow> bool" where
  "unused i ns = (map_of ns i = None \<and> all_nodes (\<lambda>k n. i \<notin> set (children n)) ns)"

text \<open>
  The tree that the children lists describe. \<open>(c, p)\<close> is in \<open>child_rel ns\<close> when \<open>p\<close> is
  the key of a folder whose children contain \<open>c\<close>; \<open>below ns k\<close> is \<open>k\<close> together with
  all its descendants, the identifiers that are reached from \<open>k\<close> through the children of
  folders.
\<close>

definition child_rel :: "node dict \<Rightarrow> (string \<times> string) set" where
  "child_rel ns =
     {(c, p). \<exists>n. map_of ns p = Some n \<and> ntype n = Folder \<and> c \<in> set (children n)}"

definition below :: "node dict \<Rightarrow> string \<Rightarrow> string set" where
  "below ns k = {x. (x, k) \<in> (child_rel ns)\<^sup>*}"

text \<open>
  The tree invariant of the specification: no identifier is listed in the children of two
  folders, and no node is its own ancestor.
\<close>

definition single_parent :: "node dict \<Rightarrow> bool" where
  "single_parent ns =
     (\<forall>c p q. (c, p) \<in> child_rel ns \<and> (c, q) \<in> child_rel ns \<longrightarrow> p = q)"

definition tree_invariant :: "node dict \<Rightarrow> bool" where
  "tree_invariant ns = (single_parent ns \<and> acyclic (child_rel ns))"

text \<open>
  A way to see that no node is its own ancestor: a rank that falls from every folder to
  each of its children.
\<close>

definition ranked :: "(string \<Rightarrow> nat) \<Rightarrow> node dict \<Rightarrow> bool" where
  "ranked r ns =
     all_nodes (\<lambda>k n. ntype n \<noteq> Folder \<or> list_all (\<lambda>c. r c < r k) (children n)) ns"

text \<open>A set of identifiers that contains the children of its folders.\<close>

definition closed :: "node dict \<Rightarrow> string set \<Rightarrow> bool" where
  "closed ns S = (\<forall>c p. (c, p) \<in> child_rel ns \<and> p \<in> S \<longrightarrow> c \<in> S)"

text \<open>
  A store that comes from another by taking nodes out and by taking identifiers out of
  children lists.
\<close>

definition shrunk :: "node dict \<Rightarrow> node dict \<Rightarrow> bool" where
  "shrunk a b =
     (\<forall>p m. map_of b p = Some m \<longrightarrow>
        (\<exists>m0. map_of a p = Some m0 \<and> ntype m = ntype m0 \<and> set (children m) \<subseteq> set (children m0)))"

text \<open>
  What the export of a subtree can write: \<^verbatim>\<open>export_bundle\<close> reads the content of a node
  that is no folder only when the node has none. And the entry it writes for a node: the
  identifier, type, name and children of the node, and no \<^verbatim>\<open>target_id\<close>.
\<close>

definition exportable :: "node \<Rightarrow> bool" where
  "exportable n = (ntype n = Folder \<or> content n = None)"

definition exported_as :: "node \<Rightarrow> json \<Rightarrow> bool" where
  "exported_as n e =
     (case e of
        JObj kv \<Rightarrow>
          map_of kv ''id'' = Some (JStr (nid n))
          \<and> map_of kv ''type'' = Some (JStr (type_str (ntype n)))
          \<and> map_of kv ''name'' = Some (JStr (name n))
          \<and> map_of kv ''children'' = Some (JArr (map JStr (children n)))
          \<and> map_of kv ''target_id'' = None
      | _ \<Rightarrow> False)"

text \<open>
  A store \<open>b\<close> keeps the nodes of a store \<open>a\<close>: every key of \<open>a\<close> still holds a node with
  the same identifier, type, name, content and target, whose children start with the
  children it had.
\<close>

definition kept :: "node dict \<Rightarrow> node dict \<Rightarrow> bool" where
  "kept a b =
     (\<forall>k n. map_of a k = Some n \<longrightarrow>
        (\<exists>n'. map_of b k = Some n' \<and> nid n' = nid n \<and> ntype n' = ntype n \<and> name n' = name n
              \<and> content n' = content n \<and> target_id n' = target_id n
              \<and> (\<exists>cs. children n' = children n @ cs)))"

text \<open>The sequence of identifiers that is left after some have been taken.\<close>

definition later :: "ids \<Rightarrow> ids \<Rightarrow> bool" where
  "later s s' = (\<exists>j. s' = (\<lambda>n. s (n + j)))"

section \<open>Example documents and stores\<close>

text \<open>A sequence of identifiers for the examples: \<open>u\<close>, \<open>u+\<close>, \<open>u++\<close> and so on.\<close>

definition uuids :: ids where
  "uuids n = ''u'' @ replicate n CHR ''+''"

definition hello_content :: json where
  "hello_content =
     JObj [(''read_text'', JStr ''hello''), (''copy_blocks'', JArr [JStr ''a'', JStr ''b''])]"

definition hello_document :: json where
  "hello_document =
     JObj [(''quickcopy_root_id'', JStr ''q''), (''favorites_root_id'', JStr ''v''),
           (''nodes'', JObj [
              (''q'', JObj [(''id'', JStr ''q''), (''type'', JStr ''folder''),
                           (''name'', JStr ''QuickCopy''), (''children'', JArr [JStr ''f''])]),
              (''v'', JObj [(''id'', JStr ''v''), (''type'', JStr ''folder''),
                           (''name'', JStr ''Favorites''), (''children'', JArr [])]),
              (''f'', JObj [(''id'', JStr ''f''), (''type'', JStr ''file''),
                           (''name'', JStr ''Note''), (''content'', hello_content)])])]"

text \<open>The store that \<open>hello_document\<close> describes.\<close>

definition sample_db :: database where
  "sample_db =
     \<lparr>quickcopy_root_id = ''q'', favorites_root_id = ''v'',
      nodes = [(''q'', (Node ''q'' Folder ''QuickCopy'')\<lparr>children := [''f'']\<rparr>),
               (''v'', Node ''v'' Folder ''Favorites''),
               (''f'', (Node ''f'' File ''Note'')\<lparr>content := Some
                  \<lparr>read_doc = JObj [(''text'', JStr ''hello''), (''tags'', JArr [])],
                   copy_docs = JArr [JObj [(''text'', JStr ''a''), (''tags'', JArr [])],
                                     JObj [(''text'', JStr ''b''), (''tags'', JArr [])]]\<rparr>\<rparr>)]\<rparr>"

text \<open>
  Stores that meet the well-formedness the round-trip law states and that the round trip
  changes. In the first a folder with the identifier \<open>y\<close> is stored under the key \<open>x\<close>.
\<close>

definition misfiled_db :: database where
  "misfiled_db =
     \<lparr>quickcopy_root_id = ''q'', favorites_root_id = ''v'',
      nodes = [(''q'', Node ''q'' Folder ''QuickCopy''),
               (''v'', Node ''v'' Folder ''Favorites''),
               (''x'', Node ''y'' Folder ''Stray'')]\<rparr>"

definition refiled_db :: database where
  "refiled_db =
     \<lparr>quickcopy_root_id = ''q'', favorites_root_id = ''v'',
      nodes = [(''q'', Node ''q'' Folder ''QuickCopy''),
               (''v'', Node ''v'' Folder ''Favorites''),
               (''y'', Node ''y'' Folder ''Stray'')]\<rparr>"

text \<open>In the second a file has content with an empty list of copy documents.\<close>

definition no_copy_docs_db :: database where
  "no_copy_docs_db =
     \<lparr>quickcopy_root_id = ''q'', favorites_root_id = ''v'',
      nodes = [(''q'', (Node ''q'' Folder ''QuickCopy'')\<lparr>children := [''f'']\<rparr>),
               (''v'', Node ''v'' Folder ''Favorites''),
               (''f'', (Node ''f'' File ''Note'')\<lparr>content :=
                  Some \<lparr>read_doc = blank_rich_doc, copy_docs = JArr []\<rparr>\<rparr>)]\<rparr>"

text \<open>In the third a folder carries content.\<close>

definition folder_content_db :: database where
  "folder_content_db =
     \<lparr>quickcopy_root_id = ''q'', favorites_root_id = ''v'',
      nodes = [(''q'', (Node ''q'' Folder ''QuickCopy'')\<lparr>content := Some FileContent\<rparr>),
               (''v'', Node ''v'' Folder ''Favorites'')]\<rparr>"

text \<open>In the fourth the identifier of the QuickCopy root is the empty string.\<close>

definition empty_root_id_db :: database where
  "empty_root_id_db =
     \<lparr>quickcopy_root_id = [], favorites_root_id = ''v'',
      nodes = [([], Node [] Folder ''QuickCopy''),
               (''v'', Node ''v'' Folder ''Favorites'')]\<rparr>"

text \<open>
  A document of the current shape, without a Favorites root, in which a file and a folder
  carry the old \<^verbatim>\<open>pinned\<close> flag.
\<close>

definition pinned_items :: "json dict" where
  "pinned_items =
     [(''q'', JObj [(''type'', JStr ''folder''), (''name'', JStr ''QuickCopy''),
                   (''children'', JArr [JStr ''f'', JStr ''g''])]),
      (''f'', JObj [(''type'', JStr ''file''), (''name'', JStr ''Deed''),
                   (''pinned'', JBool True)]),
      (''g'', JObj [(''type'', JStr ''folder''), (''name'', JStr ''Forms''),
                   (''pinned'', JBool True)])]"

definition pinned_document :: json where
  "pinned_document = JObj [(''quickcopy_root_id'', JStr ''q''), (''nodes'', JObj pinned_items)]"

definition pinned_nodes :: "node dict" where
  "pinned_nodes =
     [(''q'', (Node ''q'' Folder ''QuickCopy'')\<lparr>children := [''f'', ''g'']\<rparr>),
      (''f'', (Node ''f'' File ''Deed'')\<lparr>content := Some FileContent\<rparr>),
      (''g'', Node ''g'' Folder ''Forms'')]"

definition pinned_db :: database where
  "pinned_db =
     \<lparr>quickcopy_root_id = ''q'', favorites_root_id = ''u'',
      nodes = pinned_nodes @
        [(''u'', (Node ''u'' Folder ''Favorites'')\<lparr>children := [''u+'']\<rparr>),
         (''u+'', (Node ''u+'' Shortcut ''Deed'')\<lparr>target_id := Some ''f''\<rparr>)]\<rparr>"

text \<open>A document of the legacy shape, with \<^verbatim>\<open>root_id\<close>, in which a file is pinned.\<close>

definition legacy_pinned_document :: json where
  "legacy_pinned_document =
     JObj [(''root_id'', JStr ''r''),
           (''nodes'', JObj [
              (''r'', JObj [(''type'', JStr ''folder''), (''name'', JStr ''Root''),
                           (''children'', JArr [JStr ''f''])]),
              (''f'', JObj [(''type'', JStr ''file''), (''name'', JStr ''Deed''),
                           (''pinned'', JBool True)])])]"

definition legacy_pinned_db :: database where
  "legacy_pinned_db =
     \<lparr>quickcopy_root_id = ''u+'', favorites_root_id = ''u'',
      nodes = [(''u'', Node ''u'' Folder ''Favorites''),
               (''u+'', (Node ''u+'' Folder ''QuickCopy'')\<lparr>children := [''r'']\<rparr>),
               (''r'', (Node ''r'' Folder ''Root'')\<lparr>children := [''f'']\<rparr>),
               (''f'', (Node ''f'' File ''Deed'')\<lparr>content := Some FileContent\<rparr>)]\<rparr>"

text \<open>The sample store with the file \<open>f\<close> made a favorite.\<close>

definition favored_db :: database where
  "favored_db =
     \<lparr>quickcopy_root_id = ''q'', favorites_root_id = ''v'',
      nodes = [(''q'', (Node ''q'' Folder ''QuickCopy'')\<lparr>children := [''f'']\<rparr>),
               (''v'', (Node ''v'' Folder ''Favorites'')\<lparr>children := [''s'']\<rparr>),
               (''f'', (Node ''f'' File ''Note'')\<lparr>content := Some FileContent\<rparr>),
               (''s'', (Node ''s'' Shortcut ''Note'')\<lparr>target_id := Some ''f''\<rparr>)]\<rparr>"

text \<open>
  A store with a folder \<open>a\<close> that holds a folder \<open>b\<close> and a file \<open>f\<close>; \<open>b\<close> holds the
  file \<open>g\<close>. And the ranks of its folders.
\<close>

definition tree_db :: database where
  "tree_db =
     \<lparr>quickcopy_root_id = ''q'', favorites_root_id = ''v'',
      nodes = [(''q'', (Node ''q'' Folder ''QuickCopy'')\<lparr>children := [''a'']\<rparr>),
               (''v'', Node ''v'' Folder ''Favorites''),
               (''a'', (Node ''a'' Folder ''Deeds'')\<lparr>children := [''b'', ''f'']\<rparr>),
               (''b'', (Node ''b'' Folder ''Old'')\<lparr>children := [''g'']\<rparr>),
               (''f'', (Node ''f'' File ''Note'')\<lparr>content := Some FileContent\<rparr>),
               (''g'', (Node ''g'' File ''Memo'')\<lparr>content := Some FileContent\<rparr>)]\<rparr>"

definition tree_rank :: "string \<Rightarrow> nat" where
  "tree_rank k = (if k = ''q'' then 3 else if k = ''a'' then 2 else if k = ''b'' then 1 else 0)"

text \<open>A store in which a shortcut is a child of the QuickCopy root.\<close>

definition stray_shortcut_db :: database where
  "stray_shortcut_db =
     \<lparr>quickcopy_root_id = ''q'', favorites_root_id = ''v'',
      nodes = [(''q'', (Node ''q'' Folder ''QuickCopy'')\<lparr>children := [''f'', ''s'']\<rparr>),
               (''v'', Node ''v'' Folder ''Favorites''),
               (''f'', (Node ''f'' File ''Note'')\<lparr>content := Some FileContent\<rparr>),
               (''s'', (Node ''s'' Shortcut ''Note'')\<lparr>target_id := Some ''f''\<rparr>)]\<rparr>"

text \<open>The ranks of the folders of \<open>favored_db\<close>.\<close>

definition favored_rank :: "string \<Rightarrow> nat" where
  "favored_rank k = (if k = ''q'' \<or> k = ''v'' then 1 else 0)"

text \<open>
  A store whose identifiers differ from those of \<open>hello_document\<close>, and a bundle in the
  format of \<^verbatim>\<open>bundle_io.py\<close> that holds a folder and a file.
\<close>

definition other_db :: database where
  "other_db =
     \<lparr>quickcopy_root_id = ''r'', favorites_root_id = ''w'',
      nodes = [(''r'', Node ''r'' Folder ''QuickCopy''),
               (''w'', Node ''w'' Folder ''Favorites'')]\<rparr>"

definition hello_bundle :: json where
  "hello_bundle =
     JObj [(''bundle_root_id'', JStr ''a''),
           (''nodes'', JObj [
              (''a'', JObj [(''id'', JStr ''a''), (''type'', JStr ''folder''),
                           (''name'', JStr ''Deeds''), (''children'', JArr [JStr ''f''])]),
              (''f'', JObj [(''id'', JStr ''f''), (''type'', JStr ''file''),
                           (''name'', JStr ''Note''), (''content'', hello_content)])])]"

text \<open>
  The stores that the import of \<open>hello_document\<close> makes of \<open>sample_db\<close> and of \<open>other_db\<close>,
  with the identifiers of \<open>uuids\<close>.
\<close>

definition doubled_db :: database where
  "doubled_db =
     \<lparr>quickcopy_root_id = ''q'', favorites_root_id = ''v'',
      nodes = [(''q'', (Node ''q'' Folder ''QuickCopy'')\<lparr>children := [''f'', ''u'']\<rparr>),
               (''v'', Node ''v'' Folder ''Favorites''),
               (''f'', (Node ''f'' File ''Note'')\<lparr>content := Some
                  \<lparr>read_doc = JObj [(''text'', JStr ''hello''), (''tags'', JArr [])],
                   copy_docs = JArr [JObj [(''text'', JStr ''a''), (''tags'', JArr [])],
                                     JObj [(''text'', JStr ''b''), (''tags'', JArr [])]]\<rparr>\<rparr>),
               (''u'', (Node ''u'' Folder ''QuickCopy'')\<lparr>children := [''u++'']\<rparr>),
               (''u+'', Node ''u+'' Folder ''Favorites''),
               (''u++'', (Node ''u++'' File ''Note'')\<lparr>content := Some
                  \<lparr>read_doc = JObj [(''text'', JStr ''hello''), (''tags'', JArr [])],
                   copy_docs = JArr [JObj [(''text'', JStr ''a''), (''tags'', JArr [])],
                                     JObj [(''text'', JStr ''b''), (''tags'', JArr [])]]\<rparr>\<rparr>)]\<rparr>"

definition merged_db :: database where
  "merged_db =
     \<lparr>quickcopy_root_id = ''r'', favorites_root_id = ''w'',
      nodes = [(''r'', (Node ''r'' Folder ''QuickCopy'')\<lparr>children := [''q'']\<rparr>),
               (''w'', Node ''w'' Folder ''Favorites''),
               (''q'', (Node ''q'' Folder ''QuickCopy'')\<lparr>children := [''f'']\<rparr>),
               (''v'', Node ''v'' Folder ''Favorites''),
               (''f'', (Node ''f'' File ''Note'')\<lparr>content := Some
                  \<lparr>read_doc = JObj [(''text'', JStr ''hello''), (''tags'', JArr [])],
                   copy_docs = JArr [JObj [(''text'', JStr ''a''), (''tags'', JArr [])],
                                     JObj [(''text'', JStr ''b''), (''tags'', JArr [])]]\<rparr>\<rparr>)]\<rparr>"

section \<open>Facts about the node dict\<close>

lemma all_nodes_Nil [simp]: "all_nodes Q []"
  by (simp add: all_nodes_def)

lemma all_nodes_Cons [simp]: "all_nodes Q (kn # ns) = (Q (fst kn) (snd kn) \<and> all_nodes Q ns)"
  by (simp add: all_nodes_def)

lemma all_nodes_update:
  "Q k v \<Longrightarrow> all_nodes Q ns \<Longrightarrow> all_nodes Q (AList.update k v ns)"
  by (induction ns) auto

lemma all_nodes_delete: "all_nodes Q ns \<Longrightarrow> all_nodes Q (AList.delete k ns)"
  by (induction ns) auto

lemma all_nodes_lookup: "all_nodes Q ns \<Longrightarrow> map_of ns k = Some n \<Longrightarrow> Q k n"
  by (induction ns) (auto split: if_splits)

lemma all_nodes_dict_update:
  "all_nodes Q other \<Longrightarrow> all_nodes Q d \<Longrightarrow> all_nodes Q (dict_update d other)"
  unfolding dict_update_def
  by (induction other arbitrary: d) (auto simp: all_nodes_update)

lemma all_nodes_append_child:
  assumes "\<And>k n cs. Q k n \<Longrightarrow> Q k (n\<lparr>children := cs\<rparr>)" and "all_nodes Q ns"
  shows "all_nodes Q (append_child k c ns)"
  using assms by (auto simp: append_child_def all_nodes_update all_nodes_lookup split: option.splits)

lemma all_nodes_store_and_append:
  assumes "\<And>k n cs. Q k n \<Longrightarrow> Q k (n\<lparr>children := cs\<rparr>)" and "all_nodes Q ns"
    and "map_of ns pk = Some parent" and "Q (nid new) new"
  shows "all_nodes Q (store_and_append ns pk parent new)"
  using assms by (auto simp: store_and_append_def Let_def all_nodes_update all_nodes_lookup)

lemma all_nodes_parse_nodes:
  assumes "\<And>k d n. parse_node k d = Inr n \<Longrightarrow> Q (nid n) n"
  shows "parse_nodes items acc = Inr ns \<Longrightarrow> all_nodes Q acc \<Longrightarrow> all_nodes Q ns"
proof (induction items acc rule: parse_nodes.induct)
  case (2 node_id d rest acc)
  then show ?case
    by (auto simp: ebind_def all_nodes_update assms split: sum.splits)
qed (auto simp del: all_nodes_Cons)

lemma all_nodes_ensure_favorite_shortcut:
  assumes "\<And>k n cs. Q k n \<Longrightarrow> Q k (n\<lparr>children := cs\<rparr>)"
    and "\<And>i nm t. Q i ((Node i Shortcut nm)\<lparr>target_id := Some t\<rparr>)"
    and "all_nodes Q (nodes d)" and "ensure_favorite_shortcut d f s = (d', s')"
  shows "all_nodes Q (nodes d')"
  using assms(3,4)
  by (auto simp: ensure_favorite_shortcut_def new_id_def Let_def Node_def
        intro!: all_nodes_store_and_append assms(1,2)[unfolded Node_def, simplified]
        split: option.splits if_splits)

lemma all_nodes_migrate_pinned:
  assumes "\<And>k n cs. Q k n \<Longrightarrow> Q k (n\<lparr>children := cs\<rparr>)"
    and "\<And>i nm t. Q i ((Node i Shortcut nm)\<lparr>target_id := Some t\<rparr>)"
  shows "migrate_pinned items d s = (d', s') \<Longrightarrow> all_nodes Q (nodes d) \<Longrightarrow> all_nodes Q (nodes d')"
proof (induction items d s rule: migrate_pinned.induct)
  case (2 k raw rest db s)
  show ?case
  proof (cases "map_of raw ''pinned'' = Some (JBool True)")
    case True
    obtain d1 s1 where e: "ensure_favorite_shortcut db (entry_id k raw) s = (d1, s1)"
      by force
    have "all_nodes Q (nodes d1)"
      by (rule all_nodes_ensure_favorite_shortcut [where Q = Q, OF assms "2.prems"(2) e])
    with 2 True e show ?thesis by (simp add: Let_def)
  next
    case False
    with 2 show ?thesis by simp
  qed
qed auto

lemma all_nodes_blank_database:
  assumes "\<And>i nm. Q i (Node i Folder nm)" and "blank_database s = (d, s')"
  shows "all_nodes Q (nodes d)"
  using assms(2)
  by (auto simp: blank_database_def new_id_def Let_def assms(1))

lemma all_nodes_db_from_dict:
  assumes p: "\<And>k d n. parse_node k d = Inr n \<Longrightarrow> Q (nid n) n"
    and c: "\<And>k n cs. Q k n \<Longrightarrow> Q k (n\<lparr>children := cs\<rparr>)"
    and f: "\<And>i nm. Q i (Node i Folder nm)"
    and sc: "\<And>i nm t. Q i ((Node i Shortcut nm)\<lparr>target_id := Some t\<rparr>)"
    and r: "db_from_dict data s = Inr (d, s')"
  shows "all_nodes Q (nodes d)"
proof (cases data)
  case (JObj dat)
  show ?thesis
  proof (cases "items_of (case map_of dat ''nodes'' of None \<Rightarrow> JObj [] | Some v \<Rightarrow> v)")
    case (Inl e) with r JObj show ?thesis by (simp add: db_from_dict_def ebind_def)
  next
    case (Inr items)
    show ?thesis
    proof (cases "parse_nodes items []")
      case (Inl e) with r JObj Inr show ?thesis by (simp add: db_from_dict_def ebind_def)
    next
      case pn: (Inr ns)
      have ns: "all_nodes Q ns"
        by (rule all_nodes_parse_nodes [where Q = Q, OF p pn]) simp_all
      show ?thesis
      proof (cases "valid_key (map_of dat ''quickcopy_root_id'') ns")
        case (Inl e) with r JObj Inr pn show ?thesis by (simp add: db_from_dict_def ebind_def)
      next
        case qc: (Inr qc)
        show ?thesis
        proof (cases qc)
          case None
          obtain b s1 where b: "blank_database s = (b, s1)" by force
          have bq: "all_nodes Q (nodes b)" by (rule all_nodes_blank_database [where Q = Q, OF f b])
          have m: "all_nodes Q (dict_update (nodes b) ns)"
            by (rule all_nodes_dict_update [OF ns bq])
          have m': "all_nodes Q (append_child k x (dict_update (nodes b) ns))" for k x
            by (rule all_nodes_append_child [where Q = Q, OF c m])
          from r JObj Inr pn qc None b m m' show ?thesis
            by (auto simp: db_from_dict_def ebind_def Let_def split: sum.splits option.splits if_splits)
        next
          case (Some qc_root)
          have n1: "all_nodes Q (AList.update i (Node i Folder nm) ns)" for i nm
            by (rule all_nodes_update [where Q = Q, OF f ns])
          from r JObj Inr pn qc Some show ?thesis
            by (auto simp: db_from_dict_def ebind_def Let_def new_id_def
                  split: sum.splits option.splits if_splits
                  dest!: all_nodes_migrate_pinned [OF c sc, rotated] intro: ns n1)
        qed
      qed
    qed
  qed
qed (use r f in \<open>auto simp: db_from_dict_def intro: all_nodes_blank_database\<close>)

section \<open>Facts about file content\<close>

lemma py_iter_truthy: "truthy x \<Longrightarrow> py_iter x = Inr ys \<Longrightarrow> ys \<noteq> []"
  by (cases x) auto

lemma upgrade_copy_docs_truthy:
  "upgrade_legacy_content j = Inr fc \<Longrightarrow> truthy (copy_docs fc)"
  by (cases j)
     (auto simp: upgrade_legacy_content_def FileContent_def Let_def get_or_def
           split: if_splits option.splits sum.splits dest: py_iter_truthy)

lemma upgrade_absent_or_empty:
  assumes "absent_or_empty (map_of c ''copy_docs'')"
    and "map_of c ''read_doc'' \<noteq> None \<or> map_of c ''copy_docs'' \<noteq> None
         \<or> absent_or_empty (map_of c ''copy_blocks'')"
  shows "\<exists>fc. upgrade_legacy_content (JObj c) = Inr fc \<and> copy_docs fc = JArr [blank_rich_doc]"
  using assms
  by (auto simp: upgrade_legacy_content_def absent_or_empty_def Let_def get_or_def rich_def
        blank_rich_doc_def)

lemma type_field_File: "type_field t = File \<longleftrightarrow> t = JStr ''file''"
  by (simp add: type_field_def)

lemma parse_node_has_copy_docs: "parse_node k d = Inr n \<Longrightarrow> has_copy_docs n"
  by (auto simp: parse_node_def ebind_def has_copy_docs_def Let_def type_field_File
        split: sum.splits if_splits dest: upgrade_copy_docs_truthy)

lemma db_from_dict_has_copy_docs:
  assumes "db_from_dict data s = Inr (d, s')"
  shows "all_nodes (\<lambda>k. has_copy_docs) (nodes d)"
  by (rule all_nodes_db_from_dict [where Q = "\<lambda>k. has_copy_docs", OF _ _ _ _ assms])
     (auto simp: parse_node_has_copy_docs, auto simp: has_copy_docs_def Node_def)

lemma remove_block_sole: "length bw = 1 \<Longrightarrow> remove_block locked bw idx = bw"
  by (simp add: remove_block_def)

lemma remove_block_nonempty: "bw \<noteq> [] \<Longrightarrow> remove_block locked bw idx \<noteq> []"
  by (cases bw) (auto simp: remove_block_def)

lemma upgrade_legacy_shape:
  assumes "map_of c ''read_doc'' = None" and "map_of c ''copy_docs'' = None"
    and "map_of c ''read_text'' = Some (JStr s)"
    and "map_of c ''copy_blocks'' = Some (JArr (map JStr ss))" and "ss \<noteq> []"
  shows "upgrade_legacy_content (JObj c) =
           Inr \<lparr>read_doc = JObj [(''text'', JStr s), (''tags'', JArr [])],
                copy_docs = JArr (map (\<lambda>t. JObj [(''text'', JStr t), (''tags'', JArr [])]) ss)\<rparr>"
  using assms by (auto simp: upgrade_legacy_content_def Let_def get_or_def rich_def comp_def)

lemma parse_node_file_content:
  assumes "map_of d ''type'' = Some (JStr ''file'')" and "map_of d ''content'' = Some (JObj c)"
    and "c \<noteq> []" and "upgrade_legacy_content (JObj c) = Inr fc" and "parse_node k d = Inr n"
  shows "content n = Some fc"
  using assms
  by (auto simp: parse_node_def ebind_def get_or_def split: sum.splits)

lemma hello_document_loaded: "db_from_dict hello_document s = Inr (sample_db, s)"
  by (simp add: hello_document_def hello_content_def db_from_dict_def ebind_def items_of_def
        parse_node_def upgrade_legacy_content_def get_or_def rich_def children_field_def
        str_field_def opt_str_field_def type_field_def valid_key_def Node_def Let_def sample_db_def)

section \<open>Every node under its own identifier\<close>

lemma kc_children: "nid n = k \<Longrightarrow> nid (n\<lparr>children := cs\<rparr>) = k"
  by simp

lemma key_consistent_lookup: "key_consistent ns \<Longrightarrow> map_of ns k = Some n \<Longrightarrow> nid n = k"
  unfolding key_consistent_def by (rule all_nodes_lookup)

lemma key_consistent_update: "nid n = k \<Longrightarrow> key_consistent ns \<Longrightarrow> key_consistent (AList.update k n ns)"
  unfolding key_consistent_def by (rule all_nodes_update)

lemma key_consistent_delete: "key_consistent ns \<Longrightarrow> key_consistent (AList.delete k ns)"
  unfolding key_consistent_def by (rule all_nodes_delete)

lemma key_consistent_append_child: "key_consistent ns \<Longrightarrow> key_consistent (append_child k c ns)"
  unfolding key_consistent_def by (rule all_nodes_append_child) simp_all

lemma key_consistent_store_and_append:
  "key_consistent ns \<Longrightarrow> map_of ns pk = Some parent \<Longrightarrow> key_consistent (store_and_append ns pk parent new)"
  unfolding key_consistent_def by (rule all_nodes_store_and_append) simp_all

lemma key_consistent_blank_database: "key_consistent (nodes (fst (blank_database s)))"
  unfolding key_consistent_def
  by (rule all_nodes_blank_database [where s = s and s' = "snd (blank_database s)"])
     (simp_all add: Node_def)

lemma key_consistent_db_from_dict:
  "db_from_dict data s = Inr (d, s') \<Longrightarrow> key_consistent (nodes d)"
  unfolding key_consistent_def
  by (rule all_nodes_db_from_dict [where Q = "\<lambda>k n. nid n = k"]) (simp_all add: Node_def)

lemma key_consistent_create_node:
  "key_consistent (nodes (view_db v)) \<Longrightarrow> key_consistent (nodes (view_db (fst (create_node v answer mk s))))"
  by (auto simp: create_node_def new_id_def Let_def key_consistent_store_and_append
        split: option.splits)

lemma key_consistent_ensure_favorite_shortcut:
  "key_consistent (nodes d) \<Longrightarrow> key_consistent (nodes (fst (ensure_favorite_shortcut d f s)))"
  by (auto simp: ensure_favorite_shortcut_def new_id_def Let_def key_consistent_store_and_append
        split: option.splits)

lemma key_consistent_add_shortcut_for_target:
  "key_consistent (nodes d) \<Longrightarrow> key_consistent (nodes (fst (add_shortcut_for_target d f s)))"
  by (auto simp: add_shortcut_for_target_def new_id_def Let_def key_consistent_store_and_append
        split: option.splits)

lemma key_consistent_remove_shortcut_for_target:
  "key_consistent (nodes d) \<Longrightarrow> key_consistent (nodes (remove_shortcut_for_target d f))"
  by (auto simp: remove_shortcut_for_target_def key_consistent_delete key_consistent_update
        key_consistent_lookup split: option.splits)

lemma key_consistent_remove_shortcut:
  "key_consistent (nodes d) \<Longrightarrow> key_consistent (nodes (remove_shortcut d i))"
  by (auto simp: remove_shortcut_def key_consistent_delete key_consistent_update
        key_consistent_lookup Let_def split: option.splits)

lemma key_consistent_toggle_favorite_selected:
  "key_consistent (nodes d) \<Longrightarrow> key_consistent (nodes (fst (toggle_favorite_selected d sel s)))"
  by (auto simp: toggle_favorite_selected_def key_consistent_remove_shortcut
        key_consistent_remove_shortcut_for_target key_consistent_add_shortcut_for_target
        split: option.splits)

lemma key_consistent_fv_toggle_favorite:
  "key_consistent (nodes d) \<Longrightarrow> key_consistent (nodes (fst (fv_toggle_favorite d f s)))"
  by (auto simp: fv_toggle_favorite_def new_id_def Let_def key_consistent_store_and_append
        key_consistent_delete key_consistent_update key_consistent_lookup
        split: option.splits)

lemma key_consistent_sync_shortcut_names:
  "key_consistent ns \<Longrightarrow> key_consistent (sync_shortcut_names f nm cs ns)"
  unfolding sync_shortcut_names_def
  by (induction cs arbitrary: ns)
     (auto simp: key_consistent_update key_consistent_lookup split: option.splits)

lemma rename_subject_lookup:
  "map_of (nodes d) k = Some n \<Longrightarrow> rename_subject d k n = (k1, n1) \<Longrightarrow> map_of (nodes d) k1 = Some n1"
  by (auto simp: rename_subject_def split: if_splits option.splits)

lemma key_consistent_rename_selected:
  assumes "key_consistent (nodes d)"
  shows "key_consistent (nodes (rename_selected d sel answer))"
proof -
  have "key_consistent (AList.update k1 (n1\<lparr>name := x\<rparr>) (nodes d))"
    if "map_of (nodes d) k = Some n" "rename_subject d k n = (k1, n1)" for k n k1 n1 x
    using rename_subject_lookup [OF that] assms
    by (simp add: key_consistent_update key_consistent_lookup)
  then show ?thesis using assms
    by (auto simp: rename_selected_def Let_def key_consistent_sync_shortcut_names
          split: option.splits prod.splits)
qed

lemma key_consistent_fold_delete_subtree:
  assumes "\<And>c ns ns'. key_consistent ns \<Longrightarrow> delete_subtree fuel c ns = Some ns' \<Longrightarrow> key_consistent ns'"
  shows "fold (\<lambda>cid acc. Option.bind acc (delete_subtree fuel cid)) cs acc = Some ns'
     \<Longrightarrow> \<forall>ns. acc = Some ns \<longrightarrow> key_consistent ns \<Longrightarrow> key_consistent ns'"
proof (induction cs arbitrary: acc)
  case Nil then show ?case by simp
next
  case (Cons c cs)
  show ?case
  proof (rule Cons.IH [OF Cons.prems(1)[simplified]], intro allI impI)
    fix ns assume a: "Option.bind acc (delete_subtree fuel c) = Some ns"
    then obtain m where "acc = Some m" "delete_subtree fuel c m = Some ns"
      by (cases acc) auto
    with Cons.prems(2) assms show "key_consistent ns" by blast
  qed
qed

lemma key_consistent_delete_subtree:
  "key_consistent ns \<Longrightarrow> delete_subtree fuel i ns = Some ns' \<Longrightarrow> key_consistent ns'"
proof (induction fuel arbitrary: i ns ns')
  case 0 then show ?case by simp
next
  case (Suc fuel)
  show ?case
  proof (cases "map_of ns i")
    case None with Suc.prems show ?thesis by simp
  next
    case (Some n)
    show ?thesis
    proof (cases "ntype n = Folder")
      case True
      with Suc.prems Some obtain m
        where m: "fold (\<lambda>cid acc. Option.bind acc (delete_subtree fuel cid)) (children n) (Some ns) = Some m"
          and e: "ns' = AList.delete i m" by auto
      have "key_consistent m"
        by (rule key_consistent_fold_delete_subtree [OF Suc.IH m]) (use Suc.prems in auto)
      with e show ?thesis by (simp add: key_consistent_delete)
    next
      case False
      with Suc.prems Some show ?thesis by (auto simp: key_consistent_delete)
    qed
  qed
qed

lemma find_SomeD: "find P xs = Some x \<Longrightarrow> x \<in> set xs \<and> P x"
  by (induction xs) (auto split: if_splits)

lemma find_parent_folder_lookup:
  "distinct (map fst ns) \<Longrightarrow> find_parent_folder ns c = Some (pk, p) \<Longrightarrow> map_of ns pk = Some p"
  by (auto simp: find_parent_folder_def find_Some_iff)

lemma find_parent_folder_nid:
  "key_consistent ns \<Longrightarrow> find_parent_folder ns c = Some (pk, p) \<Longrightarrow> nid p = pk"
  by (auto simp: find_parent_folder_def key_consistent_def all_nodes_def list_all_iff
        dest!: find_SomeD)

lemma key_consistent_unlink_from_parent:
  assumes "key_consistent (nodes d)"
  shows "key_consistent (nodes (unlink_from_parent d c))"
  using assms find_parent_folder_nid [of "nodes d" c]
  by (auto split: option.splits simp: key_consistent_update unlink_from_parent_def)

lemma key_consistent_delete_selected:
  assumes "key_consistent (nodes (view_db v))" and "delete_selected fuel v sel confirm = Inr v'"
  shows "key_consistent (nodes (view_db v'))"
proof -
  note 1 = key_consistent_unlink_from_parent [OF assms(1)]
  note 2 = key_consistent_remove_shortcut_for_target [OF 1]
  show ?thesis
    using assms 1 2
    by (auto simp: delete_selected_def Let_def key_consistent_remove_shortcut
          split: option.splits if_splits dest: key_consistent_delete_subtree [rotated])
qed

section \<open>Every node under its own identifier: import\<close>

lemma key_consistent_insert_copies:
  "insert_copies items m ns = Inr ns' \<Longrightarrow> key_consistent ns \<Longrightarrow> key_consistent ns'"
  by (induction items m ns rule: insert_copies.induct)
     (auto simp: key_consistent_update split: option.splits)

lemma key_consistent_relink_children:
  "relink_children items m ns = Inr ns' \<Longrightarrow> key_consistent ns \<Longrightarrow> key_consistent ns'"
  by (induction items m ns rule: relink_children.induct)
     (auto simp: key_consistent_update key_consistent_lookup split: option.splits if_splits)

lemma key_consistent_attach_quickcopy:
  "key_consistent ns \<Longrightarrow> key_consistent (attach_quickcopy m incoming a ns)"
  by (auto simp: attach_quickcopy_def key_consistent_append_child split: option.splits)

lemma key_consistent_merge_favorites:
  "merge_favorites m incoming f ns = Inr ns' \<Longrightarrow> key_consistent ns \<Longrightarrow> key_consistent ns'"
  by (auto simp: merge_favorites_def key_consistent_update key_consistent_lookup
        split: option.splits if_splits)

lemma key_consistent_merge_incoming:
  assumes "merge_incoming v incoming s = Inr (v', s')" and "key_consistent (nodes (view_db v))"
  shows "key_consistent (nodes (view_db v'))"
  using assms
  by (auto simp: merge_incoming_def ebind_def Let_def
        split: prod.splits sum.splits
        dest!: key_consistent_insert_copies key_consistent_relink_children
        dest: key_consistent_merge_favorites intro: key_consistent_attach_quickcopy)

lemma key_consistent_import_bundle:
  assumes "import_bundle v raw s = Inr (v', s')" and "key_consistent (nodes (view_db v))"
  shows "key_consistent (nodes (view_db v'))"
  using assms
  by (auto simp: import_bundle_def split: sum.splits error.splits
        dest: key_consistent_merge_incoming)

lemma key_consistent_import_nodes:
  "import_nodes raw m ns = Inr ns' \<Longrightarrow> key_consistent ns \<Longrightarrow> key_consistent ns'"
  by (induction raw m ns rule: import_nodes.induct)
     (auto simp: key_consistent_update ebind_def Let_def Node_def
        split: option.splits sum.splits if_splits)

lemma key_consistent_import_bundle_into_folder:
  assumes "import_bundle_into_folder d bundle t s = Inr (r, d', s')" and "key_consistent (nodes d)"
  shows "key_consistent (nodes d')"
  using assms
  by (auto simp: import_bundle_into_folder_def ebind_def Let_def key_consistent_append_child
        split: option.splits sum.splits if_splits json.splits prod.splits
        dest!: key_consistent_import_nodes)

section \<open>Facts about the round trip\<close>

lemma strs_map_JStr [simp]: "strs (map JStr cs) = Inr cs"
  by (induction cs) auto

lemma type_field_type_str [simp]: "type_field (JStr (type_str t)) = t"
  by (cases t) (simp_all add: type_field_def type_str_def)

lemma type_str_file [simp]: "(type_str t = ''file'') = (t = File)"
  by (cases t) (simp_all add: type_str_def)

lemma parse_node_node_to_dict:
  assumes "roundtrip_node n" and "node_to_dict n = JObj d"
  shows "parse_node k d = Inr n"
proof (cases "content n")
  case None
  with assms show ?thesis
    by (cases "target_id n")
       (auto simp: roundtrip_node_def node_to_dict_def parse_node_def ebind_def str_field_def
          opt_str_field_def children_field_def opt_str_def)
next
  case (Some c)
  with assms show ?thesis
    by (cases "target_id n")
       (auto simp: roundtrip_node_def node_to_dict_def parse_node_def ebind_def str_field_def
          opt_str_field_def children_field_def opt_str_def get_or_def upgrade_legacy_content_def)
qed

lemma update_fresh: "k \<notin> fst ` set al \<Longrightarrow> AList.update k v al = al @ [(k, v)]"
  by (induction al) auto

lemma parse_nodes_node_to_dict:
  assumes "list_all (\<lambda>kn. roundtrip_node (snd kn)) ns" and "key_consistent ns"
    and "distinct (map fst ns)" and "fst ` set acc \<inter> fst ` set ns = {}"
  shows "parse_nodes (map (\<lambda>kn. (fst kn, node_to_dict (snd kn))) ns) acc = Inr (acc @ ns)"
  using assms
proof (induction ns arbitrary: acc)
  case Nil
  then show ?case by simp
next
  case (Cons kn ns)
  obtain k n where kn: "kn = (k, n)" by (cases kn)
  obtain d where d: "node_to_dict n = JObj d" by (simp add: node_to_dict_def)
  from Cons.prems kn have n: "roundtrip_node n" and k: "nid n = k" and fresh: "k \<notin> fst ` set acc"
    by (auto simp: key_consistent_def)
  have p: "parse_node k d = Inr n" by (rule parse_node_node_to_dict [OF n d])
  have "parse_nodes (map (\<lambda>kn. (fst kn, node_to_dict (snd kn))) ns) (acc @ [(k, n)])
          = Inr ((acc @ [(k, n)]) @ ns)"
    using Cons.prems kn by (intro Cons.IH) (auto simp: key_consistent_def)
  with p d kn k fresh show ?case by (simp add: ebind_def update_fresh)
qed

lemma migrate_pinned_node_to_dict:
  "migrate_pinned (map (\<lambda>kn. (fst kn, node_to_dict (snd kn))) ns) d s = (d, s)"
  by (induction ns) (simp_all add: node_to_dict_def)

lemma valid_key_present:
  "k \<noteq> [] \<Longrightarrow> map_of ns k \<noteq> None \<Longrightarrow> valid_key (Some (JStr k)) ns = Inr (Some k)"
  by (simp add: valid_key_def)

lemmas eval_db_from_dict =
  db_from_dict_def db_to_dict_def node_to_dict_def ebind_def items_of_def parse_node_def
  upgrade_legacy_content_def get_or_def rich_def children_field_def str_field_def
  opt_str_field_def opt_str_def type_field_def type_str_def valid_key_def Node_def Let_def
  blank_rich_doc_def FileContent_def blank_database_def new_id_def dict_update_def
  append_child_def ensure_favorite_shortcut_def store_and_append_def is_shortcut_to_def
  entry_id_def

section \<open>Facts about favorite shortcuts\<close>

lemma map_of_eq_None_keys: "(map_of ns k = None) = (k \<notin> fst ` set ns)"
  by (rule map_of_eq_None_iff)

lemma fresh_not_key: "fresh s ns \<Longrightarrow> map_of ns (s n) = None"
  by (simp add: fresh_def map_of_eq_None_iff)

lemma fresh_tail:
  assumes "fresh s ns" and "fst ` set ns' \<subseteq> insert (s 0) (fst ` set ns)"
  shows "fresh (\<lambda>n. s (Suc n)) ns'"
proof -
  from assms(1) have i: "inj s" and k: "\<And>n. s n \<notin> fst ` set ns" by (auto simp: fresh_def)
  have "inj (\<lambda>n. s (Suc n))" using i by (auto simp: inj_def)
  moreover have "s (Suc n) \<notin> fst ` set ns'" for n
  proof
    assume "s (Suc n) \<in> fst ` set ns'"
    with assms(2) have "s (Suc n) = s 0 \<or> s (Suc n) \<in> fst ` set ns" by auto
    with i k show False by (auto simp: inj_def)
  qed
  ultimately show ?thesis by (simp add: fresh_def)
qed

lemma keys_update: "fst ` set (AList.update k v ns) = insert k (fst ` set ns)"
  by (induction ns) auto

lemma keys_store_and_append:
  "map_of ns pk = Some parent \<Longrightarrow>
   fst ` set (store_and_append ns pk parent new) = insert (nid new) (fst ` set ns)"
  by (auto simp: store_and_append_def Let_def keys_update dest: map_of_SomeD
        intro: rev_image_eqI)

text \<open>What one call of \<open>ensure_favorite_shortcut\<close> does when the new identifier is no key.\<close>

lemma ensure_skips:
  "is_favorited d f \<Longrightarrow> ensure_favorite_shortcut d f s = (d, s)"
  by (auto simp: is_favorited_def ensure_favorite_shortcut_def split: option.splits if_splits)

lemma ensure_creates:
  assumes "map_of (nodes d) (favorites_root_id d) = Some fav" and "ntype fav = Folder"
    and "map_of (nodes d) f = Some t" and "ntype t = File" and "\<not> is_favorited d f"
  shows "ensure_favorite_shortcut d f s =
           (d\<lparr>nodes := store_and_append (nodes d) (favorites_root_id d) fav
                 ((Node (s 0) Shortcut (name t))\<lparr>target_id := Some f\<rparr>)\<rparr>, \<lambda>n. s (Suc n))"
  using assms
  by (auto simp: is_favorited_def ensure_favorite_shortcut_def new_id_def)

lemma ensure_cases:
  obtains (same) "ensure_favorite_shortcut d f s = (d, s)"
  | (new) fav t where "map_of (nodes d) (favorites_root_id d) = Some fav" "ntype fav = Folder"
      "map_of (nodes d) f = Some t" "ntype t = File" "\<not> is_favorited d f"
      "ensure_favorite_shortcut d f s =
           (d\<lparr>nodes := store_and_append (nodes d) (favorites_root_id d) fav
                 ((Node (s 0) Shortcut (name t))\<lparr>target_id := Some f\<rparr>)\<rparr>, \<lambda>n. s (Suc n))"
proof (cases "is_favorited d f")
  case True
  then show ?thesis using same ensure_skips by blast
next
  case nf: False
  show ?thesis
  proof (cases "map_of (nodes d) (favorites_root_id d)")
    case None
    then show ?thesis using same by (simp add: ensure_favorite_shortcut_def)
  next
    case (Some fav)
    show ?thesis
    proof (cases "ntype fav = Folder")
      case False
      with Some show ?thesis using same by (simp add: ensure_favorite_shortcut_def)
    next
      case fo: True
      show ?thesis
      proof (cases "map_of (nodes d) f")
        case None
        with Some fo nf show ?thesis using same
          by (auto simp: ensure_favorite_shortcut_def is_favorited_def)
      next
        case t: (Some t)
        show ?thesis
        proof (cases "ntype t = File")
          case False
          with Some fo nf t show ?thesis using same
            by (auto simp: ensure_favorite_shortcut_def is_favorited_def)
        next
          case True
          from new [OF Some fo t True nf ensure_creates [OF Some fo t True nf]]
          show ?thesis .
        qed
      qed
    qed
  qed
qed

text \<open>A new shortcut under the Favorites root, stored under an identifier that is no key.\<close>

lemma linked_lookup:
  assumes "map_of ns pk = Some fav" and "map_of ns i = None" and "nid sc = i"
  shows "map_of (store_and_append ns pk fav sc) k =
           (if k = pk then Some (fav\<lparr>children := children fav @ [i]\<rparr>)
            else if k = i then Some sc else map_of ns k)"
  using assms by (auto simp: store_and_append_def Let_def update_conv')

section \<open>Facts about the migration of the pinned flag\<close>

lemma is_shortcut_to_linked:
  assumes "map_of ns pk = Some fav" and "ntype fav = Folder" and "map_of ns i = None"
    and "sc = (Node i Shortcut nm)\<lparr>target_id := Some f\<rparr>"
  shows "is_shortcut_to (store_and_append ns pk fav sc) g cid =
           (if cid = i then g = f else is_shortcut_to ns g cid)"
  using assms
  by (auto simp: is_shortcut_to_def linked_lookup Node_def split: option.splits)

lemma is_favorited_linked:
  assumes "map_of (nodes d) (favorites_root_id d) = Some fav" and "ntype fav = Folder"
    and "map_of (nodes d) i = None" and "sc = (Node i Shortcut nm)\<lparr>target_id := Some f\<rparr>"
  shows "is_favorited (d\<lparr>nodes := store_and_append (nodes d) (favorites_root_id d) fav sc\<rparr>) g
           = (is_favorited d g \<or> g = f)"
proof -
  have n: "nid sc = i" using assms(4) by (simp add: Node_def)
  have a: "is_shortcut_to (nodes d) g i = False"
    using assms(3) by (simp add: is_shortcut_to_def)
  show ?thesis
    using assms(1,2) a
    by (auto simp: is_favorited_def linked_lookup [OF assms(1,3) n] list_ex_iff
          is_shortcut_to_linked [OF assms])
qed

lemma ensure_step:
  assumes e: "ensure_favorite_shortcut d f s = (d', s')" and fr: "fresh s (nodes d)"
  shows "fresh s' (nodes d')"
    and "favorites_root_id d' = favorites_root_id d"
    and "quickcopy_root_id d' = quickcopy_root_id d"
    and "map_of (nodes d) k = Some n \<Longrightarrow> \<exists>n'. map_of (nodes d') k = Some n' \<and> ntype n' = ntype n"
    and "is_favorited d' g = (is_favorited d g \<or>
           (g = f \<and> is_folder_at (nodes d) (favorites_root_id d) \<and> is_file_at (nodes d) f))"
proof -
  have all: "fresh s' (nodes d') \<and> favorites_root_id d' = favorites_root_id d
    \<and> quickcopy_root_id d' = quickcopy_root_id d
    \<and> (map_of (nodes d) k = Some n \<longrightarrow> (\<exists>n'. map_of (nodes d') k = Some n' \<and> ntype n' = ntype n))
    \<and> is_favorited d' g = (is_favorited d g \<or>
           (g = f \<and> is_folder_at (nodes d) (favorites_root_id d) \<and> is_file_at (nodes d) f))"
  proof (cases rule: ensure_cases [of d f s])
    case same
    with e have "d' = d" "s' = s" by simp_all
    moreover have "(\<lambda>n. s (Suc n)) \<noteq> s"
    proof
      assume "(\<lambda>n. s (Suc n)) = s"
      then have "s (Suc 0) = s 0" by metis
      with fr show False by (auto simp: fresh_def inj_def)
    qed
    then have "is_favorited d f"
      if "is_folder_at (nodes d) (favorites_root_id d)" "is_file_at (nodes d) f"
      using that same
      by (auto simp: ensure_favorite_shortcut_def is_favorited_def is_folder_at_def is_file_at_def
            new_id_def Let_def split: option.splits if_splits)
    ultimately show ?thesis using fr by auto
  next
    case (new fav t)
    let ?sc = "(Node (s 0) Shortcut (name t))\<lparr>target_id := Some f\<rparr>"
    from e new(6) have d': "d' = d\<lparr>nodes := store_and_append (nodes d) (favorites_root_id d) fav ?sc\<rparr>"
      and s': "s' = (\<lambda>n. s (Suc n))" by simp_all
    have i: "map_of (nodes d) (s 0) = None" by (rule fresh_not_key [OF fr])
    have n: "nid ?sc = s 0" by (simp add: Node_def)
    have "fresh s' (nodes d')"
      unfolding s' d' using fr new(1)
      by (intro fresh_tail) (auto simp: keys_store_and_append n)
    moreover have "is_favorited d' g = (is_favorited d g \<or> g = f)"
      unfolding d' by (rule is_favorited_linked [OF new(1,2) i refl])
    moreover have "\<exists>n'. map_of (nodes d') k = Some n' \<and> ntype n' = ntype n"
      if "map_of (nodes d) k = Some n"
      using that i new(1) by (auto simp: d' linked_lookup [OF new(1) i n])
    ultimately show ?thesis
      using new(1-4) by (auto simp: d' is_folder_at_def is_file_at_def)
  qed
  from all show "fresh s' (nodes d')" and "favorites_root_id d' = favorites_root_id d"
    and "quickcopy_root_id d' = quickcopy_root_id d"
    and "map_of (nodes d) k = Some n \<Longrightarrow> \<exists>n'. map_of (nodes d') k = Some n' \<and> ntype n' = ntype n"
    and "is_favorited d' g = (is_favorited d g \<or>
           (g = f \<and> is_folder_at (nodes d) (favorites_root_id d) \<and> is_file_at (nodes d) f))"
    by blast+
qed

lemma ensure_step_types:
  assumes "ensure_favorite_shortcut d f s = (d', s')" and "fresh s (nodes d)"
  shows "is_folder_at (nodes d) k \<Longrightarrow> is_folder_at (nodes d') k"
    and "is_file_at (nodes d) k \<Longrightarrow> is_file_at (nodes d') k"
  using ensure_step(4) [OF assms, of k]
  by (auto simp: is_folder_at_def is_file_at_def split: option.splits)

lemma migrate_pinned_step:
  assumes "migrate_pinned items d s = (d', s')" and "fresh s (nodes d)"
    and "is_folder_at (nodes d) (favorites_root_id d)"
  shows "fresh s' (nodes d') \<and> favorites_root_id d' = favorites_root_id d
    \<and> quickcopy_root_id d' = quickcopy_root_id d
    \<and> is_folder_at (nodes d') (favorites_root_id d')
    \<and> (\<forall>k. is_file_at (nodes d) k \<longrightarrow> is_file_at (nodes d') k)
    \<and> (\<forall>g. is_favorited d g \<longrightarrow> is_favorited d' g)
    \<and> (\<forall>k raw. (k, JObj raw) \<in> set items \<and> map_of raw ''pinned'' = Some (JBool True)
           \<and> is_file_at (nodes d) (entry_id k raw) \<longrightarrow> is_favorited d' (entry_id k raw))"
  using assms
proof (induction items d s rule: migrate_pinned.induct)
  case (1 db s)
  then show ?case by simp
next
  case (2 k raw rest db s)
  show ?case
  proof (cases "map_of raw ''pinned'' = Some (JBool True)")
    case True
    obtain d1 s1 where e: "ensure_favorite_shortcut db (entry_id k raw) s = (d1, s1)" by force
    note st = ensure_step [OF e "2.prems"(2)]
    note ty = ensure_step_types [OF e "2.prems"(2)]
    from "2.prems"(1) True e have m: "migrate_pinned rest d1 s1 = (d', s')" by simp
    have f1: "is_folder_at (nodes d1) (favorites_root_id d1)"
      using ty(1) "2.prems"(3) st(2) by simp
    note ih = "2.IH"(1) [OF True refl refl e [symmetric] m st(1) f1]
    have here: "is_favorited d1 (entry_id k raw)" if "is_file_at (nodes db) (entry_id k raw)"
      using that st(5) [of "entry_id k raw"] "2.prems"(3) by simp
    show ?thesis
      using ih st(2,3) ty(2) here st(5) by (auto simp: True)
  next
    case False
    with 2 show ?thesis by auto
  qed
qed auto

section \<open>Facts about documents with pinned entries\<close>

lemma migrate_pinned_idle:
  "\<not> is_folder_at (nodes d) (favorites_root_id d) \<Longrightarrow> migrate_pinned items d s = (d, s)"
proof (induction items d s rule: migrate_pinned.induct)
  case (2 k raw rest db s)
  have "ensure_favorite_shortcut db f s = (db, s)" for f
    using "2.prems"
    by (auto simp: ensure_favorite_shortcut_def is_folder_at_def split: option.splits)
  with 2 show ?case by simp
qed auto

lemma inj_uuids: "inj uuids"
proof (rule injI)
  fix m n assume "uuids m = uuids n"
  then have "length (uuids m) = length (uuids n)" by simp
  then show "m = n" by (simp add: uuids_def)
qed

lemma fresh_uuids: "list_all (\<lambda>kn. take 1 (fst kn) \<noteq> ''u'') ns \<Longrightarrow> fresh uuids ns"
  by (fastforce simp: fresh_def inj_uuids list_all_iff uuids_def)

lemma pinned_current_path:
  assumes doc: "map_of dat ''nodes'' = Some (JObj items)" and parsed: "parse_nodes items [] = Inr ns"
    and qc: "map_of dat ''quickcopy_root_id'' = Some (JStr q)" "q \<noteq> []" "map_of ns q \<noteq> None"
    and res: "db_from_dict (JObj dat) s = Inr (d, s')"
  obtains d0 s0 where "migrate_pinned items d0 s0 = (d, s')"
    and "fresh s ns \<Longrightarrow> fresh s0 (nodes d0)"
    and "\<And>k. fresh s ns \<Longrightarrow> is_file_at ns k \<Longrightarrow> is_file_at (nodes d0) k"
proof -
  have i: "items_of (JObj items) = Inr items"
    by (cases items) (simp_all add: items_of_def)
  have v: "valid_key (Some (JStr q)) ns = Inr (Some q)"
    using qc by (auto simp: valid_key_def)
  show ?thesis
  proof (cases "valid_key (map_of dat ''favorites_root_id'') ns")
    case (Inl e)
    with res doc parsed qc i v show ?thesis
      by (simp add: db_from_dict_def ebind_def)
  next
    case (Inr fv)
    show ?thesis
    proof (cases fv)
      case (Some f)
      with Inr res doc parsed qc i v
      have "migrate_pinned items \<lparr>quickcopy_root_id = q, favorites_root_id = f, nodes = ns\<rparr> s = (d, s')"
        by (simp add: db_from_dict_def ebind_def)
      then show ?thesis by (rule that) simp_all
    next
      case None
      let ?ns = "AList.update (s 0) (Node (s 0) Folder ''Favorites'') ns"
      from None Inr res doc parsed qc i v
      have m: "migrate_pinned items \<lparr>quickcopy_root_id = q, favorites_root_id = s 0, nodes = ?ns\<rparr>
                 (\<lambda>n. s (Suc n)) = (d, s')"
        by (simp add: db_from_dict_def ebind_def new_id_def)
      show ?thesis
      proof (rule that [OF m])
        assume "fresh s ns"
        then show "fresh (\<lambda>n. s (Suc n)) (nodes \<lparr>quickcopy_root_id = q, favorites_root_id = s 0, nodes = ?ns\<rparr>)"
          by (rule fresh_tail) (simp add: keys_update)
      next
        fix k assume "fresh s ns" "is_file_at ns k"
        then show "is_file_at (nodes \<lparr>quickcopy_root_id = q, favorites_root_id = s 0, nodes = ?ns\<rparr>) k"
          using fresh_not_key [of s ns 0]
          by (auto simp: is_file_at_def update_conv' split: option.splits)
      qed
    qed
  qed
qed

lemma pinned_items_parsed: "parse_nodes pinned_items [] = Inr pinned_nodes"
  by (simp add: pinned_items_def pinned_nodes_def eval_db_from_dict)

lemma pinned_document_loaded:
  "db_from_dict pinned_document uuids = Inr (pinned_db, \<lambda>n. uuids (Suc (Suc n)))"
  by (simp add: pinned_document_def pinned_db_def pinned_items_def pinned_nodes_def
        eval_db_from_dict uuids_def)

section \<open>Facts about renaming\<close>

lemma sync_shortcut_names_lookup:
  "map_of (sync_shortcut_names f nm cs ns) k =
     map_option (\<lambda>sc. if k \<in> set cs \<and> ntype sc = Shortcut \<and> target_id sc = Some f
                       then sc\<lparr>name := nm\<rparr> else sc) (map_of ns k)"
  unfolding sync_shortcut_names_def
proof (induction cs arbitrary: ns)
  case Nil
  then show ?case by (simp add: option.map_ident)
next
  case (Cons c cs)
  show ?case
    by (cases "map_of ns k"; cases "map_of ns c")
       (auto simp: Cons.IH update_conv' split: option.splits)
qed

lemma safe_name_blank:
  assumes "list_all is_space nm"
  shows "safe_name nm = ''Untitled''"
proof -
  from assms have "dropWhile is_space nm = []"
    by (induction nm) auto
  then have "strip nm = []" unfolding strip_def by (simp only: rev.simps dropWhile.simps)
  then show ?thesis by (simp add: safe_name_def)
qed

lemma safe_name_nonempty: "safe_name nm \<noteq> []"
  by (simp add: safe_name_def Let_def)

section \<open>Facts about toggling a favorite\<close>

lemma find_append_none: "filter P xs = [] \<Longrightarrow> find P (xs @ ys) = find P ys"
  by (induction xs) (auto split: if_splits)

lemma unused_children: "unused i ns \<Longrightarrow> map_of ns k = Some n \<Longrightarrow> i \<notin> set (children n)"
  by (auto simp: unused_def dest: all_nodes_lookup)

lemma add_shortcut_for_target_new:
  assumes fav: "map_of (nodes d) (favorites_root_id d) = Some fav" "ntype fav = Folder"
    and tgt: "map_of (nodes d) f = Some t" "ntype t = File"
    and nf: "\<not> is_favorited d f" and un: "unused (s 0) (nodes d)"
  defines "sc \<equiv> (Node (s 0) Shortcut (name t))\<lparr>target_id := Some f\<rparr>"
  defines "d1 \<equiv> d\<lparr>nodes := store_and_append (nodes d) (favorites_root_id d) fav sc\<rparr>"
  shows "add_shortcut_for_target d f s = (d1, \<lambda>n. s (Suc n))"
    and "is_favorited d1 f" and "shortcut_count d1 f = 1"
    and "remove_shortcut_for_target d1 f = d1\<lparr>nodes := AList.delete (s 0)
           (AList.update (favorites_root_id d) fav (nodes d1))\<rparr>"
proof -
  have i: "map_of (nodes d) (s 0) = None" using un by (simp add: unused_def)
  have scd: "sc = (Node (s 0) Shortcut (name t))\<lparr>target_id := Some f\<rparr>" by (simp add: sc_def)
  have n: "nid sc = s 0" by (simp add: sc_def Node_def)
  have ic: "s 0 \<notin> set (children fav)" by (rule unused_children [OF un fav(1)])
  show "add_shortcut_for_target d f s = (d1, \<lambda>n. s (Suc n))"
    using fav tgt nf
    by (auto simp: add_shortcut_for_target_def is_favorited_def new_id_def d1_def sc_def)
  show f1: "is_favorited d1 f"
    unfolding d1_def by (simp add: is_favorited_linked [OF fav i scd])
  have look: "map_of (nodes d1) (favorites_root_id d1) = Some (fav\<lparr>children := children fav @ [s 0]\<rparr>)"
    by (simp add: d1_def linked_lookup [OF fav(1) i n])
  have old: "filter (is_shortcut_to (nodes d1) f) (children fav) = []"
  proof -
    have "\<not> is_shortcut_to (nodes d1) f c" if "c \<in> set (children fav)" for c
    proof -
      from that ic have "c \<noteq> s 0" by auto
      moreover from nf fav that have "\<not> is_shortcut_to (nodes d) f c"
        by (auto simp: is_favorited_def list_ex_iff)
      ultimately show ?thesis
        by (simp add: d1_def is_shortcut_to_linked [OF fav i scd])
    qed
    then show ?thesis by (simp add: filter_empty_conv)
  qed
  have new: "is_shortcut_to (nodes d1) f (s 0)"
    by (simp add: d1_def is_shortcut_to_linked [OF fav i scd])
  show "shortcut_count d1 f = 1"
    by (simp add: shortcut_count_def look old new)
  have "find (is_shortcut_to (nodes d1) f) (children fav @ [s 0]) = Some (s 0)"
    using new by (simp add: find_append_none [OF old])
  moreover have "remove1 (s 0) (children fav @ [s 0]) = children fav"
    using ic by (simp add: remove1_append)
  ultimately show "remove_shortcut_for_target d1 f = d1\<lparr>nodes := AList.delete (s 0)
           (AList.update (favorites_root_id d) fav (nodes d1))\<rparr>"
    using look fav(2) by (simp add: remove_shortcut_for_target_def d1_def)
qed


lemma same_lookup:
  assumes "map_of (nodes a) = map_of (nodes b)" and "favorites_root_id a = favorites_root_id b"
  shows "is_favorited a f = is_favorited b f" and "shortcut_count a f = shortcut_count b f"
proof -
  from assms(1) have "is_shortcut_to (nodes a) f = is_shortcut_to (nodes b) f"
    by (auto simp: is_shortcut_to_def fun_eq_iff)
  with assms show "is_favorited a f = is_favorited b f"
    and "shortcut_count a f = shortcut_count b f"
    by (auto simp: is_favorited_def shortcut_count_def split: option.splits)
qed

lemma not_favorited_count:
  "map_of (nodes d) (favorites_root_id d) = Some fav \<Longrightarrow> ntype fav = Folder \<Longrightarrow>
   is_favorited d f = (shortcut_count d f \<noteq> 0)"
  by (auto simp: is_favorited_def shortcut_count_def list_ex_iff filter_empty_conv)

lemma add_then_remove:
  assumes fav: "map_of (nodes d) (favorites_root_id d) = Some fav" "ntype fav = Folder"
    and tgt: "map_of (nodes d) f = Some t" "ntype t = File"
    and nf: "\<not> is_favorited d f" and un: "unused (s 0) (nodes d)"
    and a: "add_shortcut_for_target d f s = (d1, s1)"
  shows "is_favorited d1 f" and "shortcut_count d1 f = 1"
    and "\<not> is_favorited (remove_shortcut_for_target d1 f) f"
    and "shortcut_count (remove_shortcut_for_target d1 f) f = 0"
proof -
  let ?sc = "(Node (s 0) Shortcut (name t))\<lparr>target_id := Some f\<rparr>"
  note new = add_shortcut_for_target_new [where s = s, OF fav tgt nf un]
  from a new(1) have d1: "d1 = d\<lparr>nodes := store_and_append (nodes d) (favorites_root_id d) fav ?sc\<rparr>"
    by simp
  show "is_favorited d1 f" and "shortcut_count d1 f = 1"
    using new(2,3) by (simp_all add: d1)
  let ?d2 = "remove_shortcut_for_target d1 f"
  have i: "map_of (nodes d) (s 0) = None" using un by (simp add: unused_def)
  have n: "nid ?sc = s 0" by (simp add: Node_def)
  have "map_of (nodes ?d2) k = map_of (nodes d) k" for k
    using fav(1) i
    by (simp add: d1 new(4) delete_conv' update_conv' linked_lookup [OF fav(1) i n])
  then have m: "map_of (nodes ?d2) = map_of (nodes d)" by (rule ext)
  have r: "favorites_root_id ?d2 = favorites_root_id d"
    by (simp add: d1 new(4))
  from same_lookup [OF m r, of f] nf fav
  show "\<not> is_favorited ?d2 f" and "shortcut_count ?d2 f = 0"
    using not_favorited_count [OF fav, of f] by simp_all
qed

lemma remove_shortcut_for_target_sole:
  assumes fav: "map_of (nodes d) (favorites_root_id d) = Some fav" "ntype fav = Folder"
    and tgt: "map_of (nodes d) f = Some t" "ntype t = File"
    and isf: "is_favorited d f" and one: "shortcut_count d f \<le> 1"
    and un: "unused i (nodes d)"
  defines "d1 \<equiv> remove_shortcut_for_target d f"
  shows "\<not> is_favorited d1 f" and "shortcut_count d1 f = 0"
    and "\<exists>fav1. map_of (nodes d1) (favorites_root_id d1) = Some fav1 \<and> ntype fav1 = Folder"
    and "map_of (nodes d1) f = Some t" and "unused i (nodes d1)"
proof -
  let ?P = "is_shortcut_to (nodes d) f"
  from isf fav obtain cid where fi: "find ?P (children fav) = Some cid"
    by (cases "find ?P (children fav)") (auto simp: is_favorited_def list_ex_iff find_None_iff)
  then have cid: "cid \<in> set (children fav)" "?P cid" by (auto dest: find_SomeD)
  from one fav have "length (filter ?P (children fav)) \<le> 1" by (simp add: shortcut_count_def)
  moreover from cid have "cid \<in> set (filter ?P (children fav))" by simp
  ultimately have sole: "filter ?P (children fav) = [cid]"
    by (cases "filter ?P (children fav)") auto
  let ?fav1 = "fav\<lparr>children := remove1 cid (children fav)\<rparr>"
  have d1: "d1 = d\<lparr>nodes := AList.delete cid (AList.update (favorites_root_id d) ?fav1 (nodes d))\<rparr>"
    using fav fi by (simp add: d1_def remove_shortcut_for_target_def)
  from cid(2) fav have ne: "cid \<noteq> favorites_root_id d"
    by (auto simp: is_shortcut_to_def)
  from cid(2) tgt have nf: "cid \<noteq> f"
    by (auto simp: is_shortcut_to_def)
  have look: "map_of (nodes d1) k =
      (if k = cid then None else if k = favorites_root_id d then Some ?fav1 else map_of (nodes d) k)" for k
    by (simp add: d1 delete_conv' update_conv')
  have P1: "is_shortcut_to (nodes d1) f c = (c \<noteq> cid \<and> ?P c)" for c
    using fav by (auto simp: is_shortcut_to_def look)
  have "filter (is_shortcut_to (nodes d1) f) (remove1 cid (children fav)) = []"
  proof -
    have "\<not> (c \<noteq> cid \<and> ?P c)" if "c \<in> set (children fav)" for c
    proof
      assume "c \<noteq> cid \<and> ?P c"
      with that have "c \<in> set (filter ?P (children fav))" by simp
      with sole \<open>c \<noteq> cid \<and> ?P c\<close> show False by simp
    qed
    then show ?thesis
      by (auto simp: filter_empty_conv P1 dest: notin_set_remove1)
  qed
  moreover have f1: "map_of (nodes d1) (favorites_root_id d1) = Some ?fav1"
    using ne by (simp add: look) (simp add: d1)
  ultimately show "shortcut_count d1 f = 0" by (simp add: shortcut_count_def)
  with not_favorited_count [OF f1, of f] fav(2) show "\<not> is_favorited d1 f" by simp
  from f1 fav(2) show "\<exists>fav1. map_of (nodes d1) (favorites_root_id d1) = Some fav1 \<and> ntype fav1 = Folder"
    by simp
  from tgt(1,2) fav nf show "map_of (nodes d1) f = Some t"
    by (auto simp: look)
  have "all_nodes (\<lambda>k n. i \<notin> set (children n)) (nodes d1)"
    unfolding d1 using un unused_children [OF un fav(1)]
    by (auto simp: unused_def intro!: all_nodes_delete all_nodes_update dest: notin_set_remove1)
  moreover have "map_of (nodes d1) i = None"
    using un fav(1) by (auto simp: look unused_def)
  ultimately show "unused i (nodes d1)" by (simp add: unused_def)
qed

section \<open>Facts about two toggles\<close>

lemma toggle_favorite_selected_file:
  assumes "map_of (nodes d) f = Some t" and "ntype t = File" and "nid t = f"
  shows "toggle_favorite_selected d (Some f) s =
           (if is_favorited d f then (remove_shortcut_for_target d f, s)
            else add_shortcut_for_target d f s)"
  using assms by (simp add: toggle_favorite_selected_def)

lemma fv_toggle_favorite_file:
  assumes "map_of (nodes d) f = Some t" and "ntype t = File" and "f \<noteq> []"
  shows "fv_toggle_favorite d (Some f) s =
           (if is_favorited d f then (remove_shortcut_for_target d f, s)
            else add_shortcut_for_target d f s)"
  using assms
  by (auto simp: fv_toggle_favorite_def fv_is_favorited_def is_favorited_def
        remove_shortcut_for_target_def add_shortcut_for_target_def new_id_def
        list_ex_iff find_None_iff split: option.splits)

lemma add_shortcut_for_target_idle:
  "\<not> is_folder_at (nodes d) (favorites_root_id d) \<Longrightarrow> add_shortcut_for_target d f s = (d, s)"
  by (auto simp: add_shortcut_for_target_def is_folder_at_def split: option.splits)

lemma not_favorited_idle:
  "\<not> is_folder_at (nodes d) (favorites_root_id d) \<Longrightarrow> \<not> is_favorited d f"
  by (auto simp: is_favorited_def is_folder_at_def split: option.splits)

lemma toggle_twice_core:
  assumes tgt: "map_of (nodes d) f = Some t" "ntype t = File"
    and one: "shortcut_count d f \<le> 1" and un: "unused (s 0) (nodes d)"
    and t1: "(if is_favorited d f then (remove_shortcut_for_target d f, s)
              else add_shortcut_for_target d f s) = (d1, s1)"
    and t2: "(if is_favorited d1 f then (remove_shortcut_for_target d1 f, s1)
              else add_shortcut_for_target d1 f s1) = (d2, s2)"
  shows "is_favorited d2 f = is_favorited d f \<and> shortcut_count d1 f \<le> 1 \<and> shortcut_count d2 f \<le> 1
         \<and> (is_folder_at (nodes d) (favorites_root_id d) \<longrightarrow> is_favorited d1 f = (\<not> is_favorited d f))"
proof (cases "is_folder_at (nodes d) (favorites_root_id d)")
  case False
  from t1 have "d1 = d" "s1 = s"
    using not_favorited_idle [OF False, of f] add_shortcut_for_target_idle [OF False, of f s]
    by simp_all
  moreover from this t2 have "d2 = d"
    using not_favorited_idle [OF False, of f] add_shortcut_for_target_idle [OF False, of f s]
    by simp
  ultimately show ?thesis using one False by simp
next
  case True
  then obtain fav where fav: "map_of (nodes d) (favorites_root_id d) = Some fav" "ntype fav = Folder"
    by (auto simp: is_folder_at_def split: option.splits)
  show ?thesis
  proof (cases "is_favorited d f")
    case isf: True
    with t1 have d1: "d1 = remove_shortcut_for_target d f" and s1: "s1 = s" by simp_all
    note r = remove_shortcut_for_target_sole [OF fav tgt isf one un, folded d1]
    from r(3) obtain fav1 where fav1: "map_of (nodes d1) (favorites_root_id d1) = Some fav1"
      "ntype fav1 = Folder" by blast
    from t2 r(1) s1 have a: "add_shortcut_for_target d1 f s = (d2, s2)" by simp
    note ar = add_then_remove [OF fav1 r(4) tgt(2) r(1) r(5) a]
    from ar(1,2) r(1,2) isf show ?thesis by simp
  next
    case nf: False
    with t1 have a: "add_shortcut_for_target d f s = (d1, s1)" by simp
    note ar = add_then_remove [OF fav tgt nf un a]
    from t2 ar(1) have "d2 = remove_shortcut_for_target d1 f" by simp
    with ar nf show ?thesis by simp
  qed
qed

lemma toggle_keeps_target:
  assumes tgt: "map_of (nodes d) f = Some t" "ntype t = File"
    and one: "shortcut_count d f \<le> 1" and un: "unused (s 0) (nodes d)"
    and t1: "(if is_favorited d f then (remove_shortcut_for_target d f, s)
              else add_shortcut_for_target d f s) = (d1, s1)"
  shows "map_of (nodes d1) f = Some t"
proof (cases "is_folder_at (nodes d) (favorites_root_id d)")
  case False
  from t1 have "d1 = d"
    using not_favorited_idle [OF False, of f] add_shortcut_for_target_idle [OF False, of f s]
    by simp
  with tgt show ?thesis by simp
next
  case True
  then obtain fav where fav: "map_of (nodes d) (favorites_root_id d) = Some fav" "ntype fav = Folder"
    by (auto simp: is_folder_at_def split: option.splits)
  show ?thesis
  proof (cases "is_favorited d f")
    case isf: True
    with t1 have d1: "d1 = remove_shortcut_for_target d f" by simp
    show ?thesis by (rule remove_shortcut_for_target_sole(4) [OF fav tgt isf one un, folded d1])
  next
    case nf: False
    have i: "map_of (nodes d) (s 0) = None" using un by (simp add: unused_def)
    from nf t1 add_shortcut_for_target_new(1) [where s = s, OF fav tgt nf un]
    have "d1 = d\<lparr>nodes := store_and_append (nodes d) (favorites_root_id d) fav
                 ((Node (s 0) Shortcut (name t))\<lparr>target_id := Some f\<rparr>)\<rparr>" by simp
    then show ?thesis
      using tgt fav i by (auto simp: linked_lookup [OF fav(1) i] Node_def)
  qed
qed

section \<open>Facts about the tree of a store\<close>

lemma child_relI:
  "map_of ns p = Some n \<Longrightarrow> ntype n = Folder \<Longrightarrow> c \<in> set (children n) \<Longrightarrow> (c, p) \<in> child_rel ns"
  by (auto simp: child_rel_def)

lemma child_relE:
  assumes "(c, p) \<in> child_rel ns"
  obtains n where "map_of ns p = Some n" "ntype n = Folder" "c \<in> set (children n)"
  using assms by (auto simp: child_rel_def)

lemma below_self [simp]: "k \<in> below ns k"
  by (simp add: below_def)

lemma below_leaf:
  assumes "\<And>n. map_of ns k = Some n \<Longrightarrow> ntype n \<noteq> Folder"
  shows "below ns k = {k}"
proof -
  have "x = k" if "(x, k) \<in> (child_rel ns)\<^sup>*" for x
    using that
  proof (cases rule: rtranclE)
    case base
    then show ?thesis by simp
  next
    case (step y)
    then show ?thesis using assms by (auto elim!: child_relE)
  qed
  then show ?thesis by (auto simp: below_def)
qed

lemma below_folder:
  assumes "map_of ns k = Some n" and "ntype n = Folder"
  shows "below ns k = insert k (\<Union>c \<in> set (children n). below ns c)"
proof (intro set_eqI iffI)
  fix x assume "x \<in> below ns k"
  then have "(x, k) \<in> (child_rel ns)\<^sup>*" by (simp add: below_def)
  then show "x \<in> insert k (\<Union>c \<in> set (children n). below ns c)"
  proof (cases rule: rtranclE)
    case base
    then show ?thesis by simp
  next
    case (step y)
    from step(2) assms have "y \<in> set (children n)" by (auto elim!: child_relE)
    with step(1) show ?thesis by (auto simp: below_def)
  qed
next
  fix x assume "x \<in> insert k (\<Union>c \<in> set (children n). below ns c)"
  then show "x \<in> below ns k"
  proof
    assume "x = k" then show ?thesis by simp
  next
    assume "x \<in> (\<Union>c \<in> set (children n). below ns c)"
    then obtain c where c: "c \<in> set (children n)" "(x, c) \<in> (child_rel ns)\<^sup>*"
      by (auto simp: below_def)
    from c(1) assms have "(c, k) \<in> child_rel ns" by (auto intro: child_relI)
    with c(2) show ?thesis by (auto simp: below_def)
  qed
qed

lemma closed_below: "closed ns (below ns k)"
  by (auto simp: closed_def below_def intro: converse_rtrancl_into_rtrancl)

lemma closed_Un: "closed ns A \<Longrightarrow> closed ns B \<Longrightarrow> closed ns (A \<union> B)"
  by (auto simp: closed_def)

lemma closed_empty: "closed ns {}"
  by (simp add: closed_def)

lemma closed_below_subset: "closed ns S \<Longrightarrow> k \<in> S \<Longrightarrow> below ns k \<subseteq> S"
proof
  fix x assume c: "closed ns S" and k: "k \<in> S" and "x \<in> below ns k"
  then have "(x, k) \<in> (child_rel ns)\<^sup>*" by (simp add: below_def)
  then show "x \<in> S"
    using k
  proof (induction rule: converse_rtrancl_induct)
    case base
    then show ?case by simp
  next
    case (step y z)
    then show ?case using c by (auto simp: closed_def)
  qed
qed

text \<open>Taking a closed set out of a store.\<close>

lemma child_rel_restrict:
  assumes "map_of ns' = map_of ns |` (- S)"
  shows "child_rel ns' = {(c, p). (c, p) \<in> child_rel ns \<and> p \<notin> S}"
  using assms by (auto simp: child_rel_def restrict_map_def split: if_splits)

lemma below_restrict:
  assumes r: "map_of ns' = map_of ns |` (- S)" and c: "closed ns S"
  shows "below ns' k \<union> S = below ns k \<union> S"
proof -
  note cr = child_rel_restrict [OF r]
  have 1: "x \<in> below ns k" if "x \<in> below ns' k" for x
  proof -
    from that have "(x, k) \<in> (child_rel ns')\<^sup>*" by (simp add: below_def)
    moreover have "child_rel ns' \<subseteq> child_rel ns" using cr by auto
    ultimately have "(x, k) \<in> (child_rel ns)\<^sup>*" by (rule rtrancl_mono [THEN subsetD, rotated])
    then show ?thesis by (simp add: below_def)
  qed
  have 2: "x \<in> below ns' k \<or> x \<in> S" if "x \<in> below ns k" for x
  proof -
    from that have "(x, k) \<in> (child_rel ns)\<^sup>*" by (simp add: below_def)
    then show ?thesis
    proof (induction rule: converse_rtrancl_induct)
      case base
      then show ?case by simp
    next
      case (step y z)
      show ?case
      proof (cases "z \<in> S")
        case True
        with step(1) c show ?thesis by (auto simp: closed_def)
      next
        case False
        with step(3) have z: "z \<in> below ns' k" by simp
        show ?thesis
        proof (cases "y \<in> S")
          case True then show ?thesis by simp
        next
          case yS: False
          from step(1) False have "(y, z) \<in> child_rel ns'" by (simp add: cr)
          with z show ?thesis by (auto simp: below_def intro: converse_rtrancl_into_rtrancl)
        qed
      qed
    qed
  qed
  from 1 2 show ?thesis by auto
qed

section \<open>Facts about the deletion of a subtree\<close>

lemma fold_bind_None [simp]: "fold (\<lambda>c acc. Option.bind acc (g c)) cs None = None"
  by (induction cs) auto

lemma restrict_restrict: "(m |` A) |` B = m |` (A \<inter> B)"
  by (auto simp: restrict_map_def fun_eq_iff)

lemma delete_subtree_children_spec:
  assumes ih: "\<And>x m1 m2. delete_subtree fuel x m1 = Some m2 \<Longrightarrow>
                 map_of m2 = map_of m1 |` (- below m1 x)"
  shows "fold (\<lambda>cid acc. Option.bind acc (delete_subtree fuel cid)) cs (Some m1) = Some m2 \<Longrightarrow>
         map_of m1 = map_of m |` (- S) \<Longrightarrow> closed m S \<Longrightarrow>
         map_of m2 = map_of m |` (- (S \<union> (\<Union>c \<in> set cs. below m c)))"
proof (induction cs arbitrary: m1 S)
  case Nil
  then show ?case by simp
next
  case (Cons c cs)
  from Cons.prems(1) obtain m1' where d: "delete_subtree fuel c m1 = Some m1'"
    and f: "fold (\<lambda>cid acc. Option.bind acc (delete_subtree fuel cid)) cs (Some m1') = Some m2"
    by (cases "delete_subtree fuel c m1") auto
  have "below m1 c \<union> S = below m c \<union> S"
    by (rule below_restrict [OF Cons.prems(2,3)])
  then have e: "- S \<inter> - below m1 c = - (S \<union> below m c)" by auto
  from ih [OF d] Cons.prems(2) have "map_of m1' = map_of m |` (- (S \<union> below m c))"
    by (simp add: restrict_restrict e)
  moreover have "closed m (S \<union> below m c)"
    by (intro closed_Un Cons.prems(3) closed_below)
  ultimately have "map_of m2 = map_of m |` (- ((S \<union> below m c) \<union> (\<Union>c \<in> set cs. below m c)))"
    by (rule Cons.IH [OF f])
  then show ?case by (simp add: Un_assoc)
qed

lemma restrict_absent: "m x = None \<Longrightarrow> m |` (- {x}) = m"
  by (auto simp: restrict_map_def fun_eq_iff)

lemma restrict_delete: "(m |` (- S))(x := None) = m |` (- insert x S)"
  by (auto simp: restrict_map_def fun_eq_iff)

lemma delete_subtree_spec:
  "delete_subtree fuel x m = Some m' \<Longrightarrow> map_of m' = map_of m |` (- below m x)"
proof (induction fuel arbitrary: x m m')
  case 0
  then show ?case by simp
next
  case (Suc fuel)
  show ?case
  proof (cases "map_of m x")
    case None
    then have b: "below m x = {x}" by (intro below_leaf) simp
    from None Suc.prems have "m' = m" by simp
    with None show ?thesis by (simp add: b restrict_absent)
  next
    case (Some n)
    show ?thesis
    proof (cases "ntype n = Folder")
      case False
      with Some have b: "below m x = {x}" by (intro below_leaf) simp
      from Some False Suc.prems have "m' = AList.delete x m" by simp
      then have "map_of m' = (map_of m)(x := None)" by (simp add: delete_conv')
      also have "\<dots> = map_of m |` (- {x})" by (auto simp: restrict_map_def fun_eq_iff)
      finally show ?thesis by (simp only: b)
    next
      case True
      from Suc.prems Some True
      have "map_option (AList.delete x)
              (fold (\<lambda>cid acc. Option.bind acc (delete_subtree fuel cid)) (children n) (Some m)) = Some m'"
        by simp
      then obtain m2
        where f: "fold (\<lambda>cid acc. Option.bind acc (delete_subtree fuel cid)) (children n) (Some m) = Some m2"
          and m': "m' = AList.delete x m2" by blast
      have "map_of m2 = map_of m |` (- ({} \<union> (\<Union>c \<in> set (children n). below m c)))"
        by (rule delete_subtree_children_spec [OF Suc.IH f])
           (simp_all add: closed_empty restrict_map_def)
      then have "map_of m' = (map_of m |` (- (\<Union>c \<in> set (children n). below m c)))(x := None)"
        by (simp add: m' delete_conv')
      then show ?thesis by (simp only: restrict_delete below_folder [OF Some True])
    qed
  qed
qed

lemma finite_child_rel: "finite (child_rel ns)"
proof -
  have "child_rel ns \<subseteq> (\<Union>kn \<in> set ns. set (children (snd kn))) \<times> fst ` set ns"
  proof
    fix cp assume "cp \<in> child_rel ns"
    then obtain c p n where cp: "cp = (c, p)" and n: "map_of ns p = Some n" "c \<in> set (children n)"
      by (auto simp: child_rel_def)
    from n(1) have m: "(p, n) \<in> set ns" by (rule map_of_SomeD)
    then have "p \<in> fst ` set ns" by force
    moreover from m n(2) have "c \<in> (\<Union>kn \<in> set ns. set (children (snd kn)))" by force
    ultimately show "cp \<in> (\<Union>kn \<in> set ns. set (children (snd kn))) \<times> fst ` set ns"
      by (simp add: cp)
  qed
  moreover have "finite ((\<Union>kn \<in> set ns. set (children (snd kn))) \<times> fst ` set ns)"
    by simp
  ultimately show ?thesis by (rule finite_subset)
qed

lemma wf_child_rel: "acyclic (child_rel ns) \<Longrightarrow> wf (child_rel ns)"
  by (rule finite_acyclic_wf [OF finite_child_rel])

lemma list_bound:
  assumes "\<And>c. c \<in> set cs \<Longrightarrow> \<exists>N :: nat. \<forall>fuel \<ge> N. P fuel c"
  shows "\<exists>N :: nat. \<forall>fuel \<ge> N. \<forall>c \<in> set cs. P fuel (c :: 'a)"
  using assms
proof (induction cs)
  case Nil
  then show ?case by simp
next
  case (Cons c cs)
  then obtain N1 where 1: "\<forall>fuel \<ge> N1. \<forall>c \<in> set cs. P fuel c" by force
  from Cons.prems obtain N2 where 2: "\<forall>fuel \<ge> N2. P fuel c" by force
  have "\<forall>c' \<in> set (c # cs). P fuel c'" if "fuel \<ge> max N1 N2" for fuel
  proof -
    from that have "fuel \<ge> N1" "fuel \<ge> N2" by simp_all
    with 1 2 show ?thesis by simp
  qed
  then have "\<forall>fuel \<ge> max N1 N2. \<forall>c' \<in> set (c # cs). P fuel c'" by blast
  then show ?case ..
qed

lemma delete_subtree_children_total:
  assumes "\<And>c m S. c \<in> set cs \<Longrightarrow> map_of m = map_of m0 |` (- S) \<Longrightarrow> delete_subtree fuel c m \<noteq> None"
  shows "map_of m1 = map_of m0 |` (- S) \<Longrightarrow>
         fold (\<lambda>cid acc. Option.bind acc (delete_subtree fuel cid)) cs (Some m1) \<noteq> None"
  using assms
proof (induction cs arbitrary: m1 S)
  case Nil
  then show ?case by simp
next
  case (Cons c cs)
  from Cons.prems(2) [OF _ Cons.prems(1)] obtain m2 where d: "delete_subtree fuel c m1 = Some m2"
    by fastforce
  from delete_subtree_spec [OF d] Cons.prems(1)
  have "map_of m2 = map_of m0 |` (- S \<inter> - below m1 c)" by (simp add: restrict_restrict)
  then have "map_of m2 = map_of m0 |` (- (S \<union> below m1 c))" by (simp add: Compl_Un)
  from Cons.IH [OF this] Cons.prems(2) d show ?case by simp
qed

lemma delete_subtree_total:
  assumes "acyclic (child_rel m0)"
  shows "\<exists>N. \<forall>fuel \<ge> N. \<forall>m S. map_of m = map_of m0 |` (- S) \<longrightarrow> delete_subtree fuel x m \<noteq> None"
  using wf_child_rel [OF assms]
proof (induction x rule: wf_induct_rule)
  case (less x)
  show ?case
  proof (cases "\<exists>n. map_of m0 x = Some n \<and> ntype n = Folder")
    case False
    have "delete_subtree fuel x m \<noteq> None" if "fuel \<ge> 1" "map_of m = map_of m0 |` (- S)" for fuel m S
    proof -
      from that(1) obtain f where f: "fuel = Suc f" by (cases fuel) auto
      from that(2) False have "\<And>n. map_of m x = Some n \<Longrightarrow> ntype n \<noteq> Folder"
        by (auto simp: restrict_map_def split: if_splits)
      then show ?thesis by (auto simp: f split: option.splits)
    qed
    then show ?thesis by blast
  next
    case True
    then obtain n where n: "map_of m0 x = Some n" "ntype n = Folder" by blast
    have "\<exists>N. \<forall>fuel \<ge> N. \<forall>c \<in> set (children n).
            (\<forall>m S. map_of m = map_of m0 |` (- S) \<longrightarrow> delete_subtree fuel c m \<noteq> None)"
    proof (rule list_bound)
      fix c assume "c \<in> set (children n)"
      with n have "(c, x) \<in> child_rel m0" by (auto intro: child_relI)
      then show "\<exists>N. \<forall>fuel \<ge> N. \<forall>m S. map_of m = map_of m0 |` (- S) \<longrightarrow> delete_subtree fuel c m \<noteq> None"
        by (rule less.IH)
    qed
    then obtain N where N: "\<And>fuel c m S. fuel \<ge> N \<Longrightarrow> c \<in> set (children n) \<Longrightarrow>
        map_of m = map_of m0 |` (- S) \<Longrightarrow> delete_subtree fuel c m \<noteq> None" by blast
    have "delete_subtree fuel x m \<noteq> None" if "fuel \<ge> Suc N" "map_of m = map_of m0 |` (- S)" for fuel m S
    proof -
      from that(1) obtain f where f: "fuel = Suc f" "f \<ge> N" by (cases fuel) auto
      show ?thesis
      proof (cases "map_of m x")
        case None
        then show ?thesis by (simp add: f)
      next
        case (Some n')
        with that(2) n have "n' = n" by (auto simp: restrict_map_def split: if_splits)
        have "fold (\<lambda>cid acc. Option.bind acc (delete_subtree f cid)) (children n) (Some m) \<noteq> None"
          by (rule delete_subtree_children_total [OF N [OF f(2)] that(2)])
        with Some \<open>n' = n\<close> n show ?thesis by (auto simp: f)
      qed
    qed
    then show ?thesis by blast
  qed
qed

section \<open>Facts about taking a node out of its parent\<close>

lemma shrunk_refl: "shrunk a a"
  by (simp add: shrunk_def)

lemma shrunk_trans:
  assumes "shrunk a b" and "shrunk b c"
  shows "shrunk a c"
  unfolding shrunk_def
proof (intro allI impI)
  fix p m assume "map_of c p = Some m"
  with assms(2) obtain m1 where 1: "map_of b p = Some m1" "ntype m = ntype m1"
    "set (children m) \<subseteq> set (children m1)" unfolding shrunk_def by blast
  from assms(1) 1(1) obtain m0 where 0: "map_of a p = Some m0" "ntype m1 = ntype m0"
    "set (children m1) \<subseteq> set (children m0)" unfolding shrunk_def by blast
  from 0 1 show "\<exists>m0. map_of a p = Some m0 \<and> ntype m = ntype m0
      \<and> set (children m) \<subseteq> set (children m0)" by auto
qed

lemma shrunk_child_rel: "shrunk a b \<Longrightarrow> child_rel b \<subseteq> child_rel a"
  by (fastforce simp: shrunk_def child_rel_def)

lemma shrunk_restrict: "map_of b = map_of a |` (- S) \<Longrightarrow> shrunk a b"
  by (auto simp: shrunk_def restrict_map_def split: if_splits)

lemma shrunk_delete: "shrunk a (AList.delete k a)"
  by (auto simp: shrunk_def delete_conv' split: if_splits)

lemma shrunk_update_children:
  "map_of a k = Some n \<Longrightarrow> set cs \<subseteq> set (children n) \<Longrightarrow>
   shrunk a (AList.update k (n\<lparr>children := cs\<rparr>) a)"
  by (auto simp: shrunk_def update_conv')

lemma shrunk_delete_subtree: "delete_subtree fuel x a = Some b \<Longrightarrow> shrunk a b"
  by (rule shrunk_restrict [OF delete_subtree_spec])

lemma shrunk_remove_shortcut_for_target: "shrunk (nodes d) (nodes (remove_shortcut_for_target d f))"
proof -
  have "shrunk (nodes d) (AList.delete cid (AList.update k (fav\<lparr>children := remove1 cid (children fav)\<rparr>) (nodes d)))"
    if "map_of (nodes d) k = Some fav" for k fav cid
    by (rule shrunk_trans [OF shrunk_update_children [OF that] shrunk_delete])
       (rule set_remove1_subset)
  then show ?thesis
    by (auto simp: remove_shortcut_for_target_def shrunk_refl split: option.splits)
qed

lemma find_parent_folder_None:
  "find_parent_folder ns c = None \<Longrightarrow> (c, p) \<notin> child_rel ns"
  by (auto simp: find_parent_folder_def find_None_iff child_rel_def dest!: map_of_SomeD)

lemma find_parent_folder_Some:
  assumes "distinct (map fst ns)" and "find_parent_folder ns c = Some (pk, pn)"
  shows "map_of ns pk = Some pn" and "(c, pk) \<in> child_rel ns"
proof -
  from assms(2) have "(pk, pn) \<in> set ns" "ntype pn = Folder" "c \<in> set (children pn)"
    by (auto simp: find_parent_folder_def dest: find_SomeD)
  with assms(1) show "map_of ns pk = Some pn" and "(c, pk) \<in> child_rel ns"
    by (auto intro: child_relI)
qed

lemma unlink_from_parent_props:
  fixes d :: database and k :: string
  assumes dist: "distinct (map fst (nodes d))" and sp: "single_parent (nodes d)"
  defines "ns1 \<equiv> nodes (unlink_from_parent d k)"
  shows "shrunk (nodes d) ns1" and "(k, p) \<notin> child_rel ns1"
    and "(c, q) \<in> child_rel (nodes d) \<Longrightarrow> c \<noteq> k \<Longrightarrow> (c, q) \<in> child_rel ns1"
    and "map_of (nodes d) x = Some n \<Longrightarrow> \<exists>n'. map_of ns1 x = Some n' \<and> ntype n' = ntype n"
proof -
  have all: "shrunk (nodes d) ns1 \<and> (k, p) \<notin> child_rel ns1 \<and>
       ((c, q) \<in> child_rel (nodes d) \<longrightarrow> c \<noteq> k \<longrightarrow> (c, q) \<in> child_rel ns1) \<and>
       (map_of (nodes d) x = Some n \<longrightarrow> (\<exists>n'. map_of ns1 x = Some n' \<and> ntype n' = ntype n))"
  proof (cases "find_parent_folder (nodes d) k")
    case None
    then have "ns1 = nodes d" by (simp add: ns1_def unlink_from_parent_def)
    with find_parent_folder_None [OF None] show ?thesis
      by (simp add: shrunk_refl)
  next
    case (Some a)
    obtain pk pn where a: "a = (pk, pn)" by (cases a)
    note fp = find_parent_folder_Some [OF dist Some [unfolded a]]
    let ?pn = "pn\<lparr>children := filter (\<lambda>cid. cid \<noteq> k) (children pn)\<rparr>"
    have ns1: "ns1 = AList.update pk ?pn (nodes d)"
      using Some a by (simp add: ns1_def unlink_from_parent_def)
    have look: "map_of ns1 y = (if y = pk then Some ?pn else map_of (nodes d) y)" for y
      by (simp add: ns1 update_conv')
    have 1: "shrunk (nodes d) ns1"
      unfolding ns1 by (rule shrunk_update_children [OF fp(1)]) auto
    have 2: "(k, p) \<notin> child_rel ns1"
    proof
      assume kp: "(k, p) \<in> child_rel ns1"
      show False
      proof (cases "p = pk")
        case True
        with kp show False by (auto simp: child_rel_def look)
      next
        case False
        with kp have "(k, p) \<in> child_rel (nodes d)" by (auto simp: child_rel_def look)
        with fp(2) sp have "p = pk" by (auto simp: single_parent_def)
        with False show False by simp
      qed
    qed
    have 3: "(c, q) \<in> child_rel ns1" if "(c, q) \<in> child_rel (nodes d)" "c \<noteq> k"
      using that fp(1) by (auto simp: child_rel_def look)
    have 4: "\<exists>n'. map_of ns1 x = Some n' \<and> ntype n' = ntype n" if "map_of (nodes d) x = Some n"
      using that fp(1) by (auto simp: look)
    from 1 2 3 4 show ?thesis by blast
  qed
  from all show "shrunk (nodes d) ns1" and "(k, p) \<notin> child_rel ns1"
    and "(c, q) \<in> child_rel (nodes d) \<Longrightarrow> c \<noteq> k \<Longrightarrow> (c, q) \<in> child_rel ns1"
    and "map_of (nodes d) x = Some n \<Longrightarrow> \<exists>n'. map_of ns1 x = Some n' \<and> ntype n' = ntype n"
    by blast+
qed

lemma below_unlinked:
  assumes sh: "child_rel b \<subseteq> child_rel a" and ac: "acyclic (child_rel a)"
    and keep: "\<And>c q. (c, q) \<in> child_rel a \<Longrightarrow> c \<noteq> k \<Longrightarrow> (c, q) \<in> child_rel b"
  shows "below b k = below a k"
proof (intro set_eqI iffI)
  fix x assume "x \<in> below b k"
  then have "(x, k) \<in> (child_rel b)\<^sup>*" by (simp add: below_def)
  with rtrancl_mono [OF sh] have "(x, k) \<in> (child_rel a)\<^sup>*" by blast
  then show "x \<in> below a k" by (simp add: below_def)
next
  fix x assume "x \<in> below a k"
  then have "(x, k) \<in> (child_rel a)\<^sup>*" by (simp add: below_def)
  then have "(x, k) \<in> (child_rel b)\<^sup>*"
  proof (induction rule: converse_rtrancl_induct)
    case base
    then show ?case by simp
  next
    case (step y z)
    have "y \<noteq> k"
    proof
      assume "y = k"
      with step(1,2) have "(k, k) \<in> (child_rel a)\<^sup>+" by (auto intro: rtrancl_into_trancl2)
      with ac show False by (auto simp: acyclic_def)
    qed
    with step(1) have "(y, z) \<in> child_rel b" by (rule keep)
    then show ?case using step(3) by (rule converse_rtrancl_into_rtrancl)
  qed
  then show "x \<in> below b k" by (simp add: below_def)
qed

section \<open>Facts about deleting the selected node\<close>

lemma no_dangling_child:
  assumes sp: "single_parent ns" and sh: "shrunk ns ns'"
    and gone: "\<And>x. x \<in> below ns k \<Longrightarrow> map_of ns' x = None"
    and nok: "\<And>p. (k, p) \<notin> child_rel ns'"
    and m: "map_of ns' p = Some m" "ntype m = Folder" "c \<in> set (children m)"
  shows "c \<notin> below ns k"
proof
  assume c: "c \<in> below ns k"
  from m have cp': "(c, p) \<in> child_rel ns'" by (auto intro: child_relI)
  with nok have "c \<noteq> k" by auto
  from cp' shrunk_child_rel [OF sh] have cp: "(c, p) \<in> child_rel ns" by auto
  from c have "(c, k) \<in> (child_rel ns)\<^sup>*" by (simp add: below_def)
  then obtain q where q: "(c, q) \<in> child_rel ns" "(q, k) \<in> (child_rel ns)\<^sup>*"
    using \<open>c \<noteq> k\<close> by (auto elim: converse_rtranclE)
  from sp cp q(1) have "p = q" by (auto simp: single_parent_def)
  with q(2) have "p \<in> below ns k" by (simp add: below_def)
  from gone [OF this] m(1) show False by simp
qed

lemma shrunk_remove_shortcut: "shrunk (nodes d) (nodes (remove_shortcut d k))"
proof -
  have "shrunk (nodes d) (AList.delete k (AList.update f (fav\<lparr>children := filter (\<lambda>c. c \<noteq> k) (children fav)\<rparr>) (nodes d)))"
    if "map_of (nodes d) f = Some fav" for f fav
    by (rule shrunk_trans [OF shrunk_update_children [OF that] shrunk_delete]) auto
  then show ?thesis
    by (auto simp: remove_shortcut_def shrunk_delete Let_def split: option.splits)
qed

lemma remove_shortcut_unlinks:
  assumes only: "\<And>p. (k, p) \<in> child_rel (nodes d) \<Longrightarrow> p = favorites_root_id d"
  shows "(k, p) \<notin> child_rel (nodes (remove_shortcut d k))"
proof
  assume kp: "(k, p) \<in> child_rel (nodes (remove_shortcut d k))"
  then obtain m where m: "map_of (nodes (remove_shortcut d k)) p = Some m" "ntype m = Folder"
    "k \<in> set (children m)" by (rule child_relE)
  from kp shrunk_child_rel [OF shrunk_remove_shortcut] have "(k, p) \<in> child_rel (nodes d)" by auto
  then have p: "p = favorites_root_id d" and "\<exists>fav. map_of (nodes d) p = Some fav \<and> ntype fav = Folder"
    by (auto dest: only elim: child_relE)
  then obtain fav where fav: "map_of (nodes d) (favorites_root_id d) = Some fav" "ntype fav = Folder"
    by auto
  from m(1) fav p have "m = fav\<lparr>children := filter (\<lambda>c. c \<noteq> k) (children fav)\<rparr>"
    by (auto simp: remove_shortcut_def delete_conv' update_conv' split: if_splits)
  with m(3) show False by simp
qed

lemma delete_selected_unfold:
  assumes "map_of (nodes (view_db v)) k = Some n" and "nid n = k"
    and "k \<noteq> favorites_root_id (view_db v)" and "k \<noteq> quickcopy_root_id (view_db v)"
  shows "delete_selected fuel v (Some k) True =
           (if ntype n = Shortcut then Inr (v\<lparr>view_db := remove_shortcut (view_db v) k\<rparr>)
            else (let d1 = unlink_from_parent (view_db v) k;
                      d2 = (if ntype n = File then remove_shortcut_for_target d1 k else d1)
                  in case delete_subtree fuel k (nodes d2) of
                       None \<Rightarrow> Inl RecursionError
                     | Some ns \<Rightarrow> Inr \<lparr>view_db = d2\<lparr>nodes := ns\<rparr>,
                                       current_folder_id = retarget v n\<rparr>))"
  using assms by (auto simp: delete_selected_def Let_def split: option.splits)

lemma ranked_acyclic:
  assumes "ranked r ns"
  shows "acyclic (child_rel ns)"
proof -
  have "child_rel ns \<subseteq> measure r"
  proof
    fix cp assume "cp \<in> child_rel ns"
    then obtain c p n where cp: "cp = (c, p)" and n: "map_of ns p = Some n" "ntype n = Folder"
      "c \<in> set (children n)" by (auto simp: child_rel_def)
    from assms n(1) have "ntype n \<noteq> Folder \<or> list_all (\<lambda>c. r c < r p) (children n)"
      unfolding ranked_def by (rule all_nodes_lookup)
    with n(2,3) have "r c < r p" by (simp add: list_all_iff)
    then show "cp \<in> measure r" by (simp add: cp)
  qed
  then have "wf (child_rel ns)" by (rule wf_subset [OF wf_measure])
  then show ?thesis by (rule wf_acyclic)
qed

lemma tree_db_invariant: "tree_invariant (nodes tree_db)"
proof -
  have "single_parent (nodes tree_db)"
    by (auto simp: single_parent_def child_rel_def tree_db_def Node_def split: if_splits)
  moreover have "ranked tree_rank (nodes tree_db)"
    by (simp add: ranked_def tree_db_def Node_def tree_rank_def)
  ultimately show ?thesis by (simp add: tree_invariant_def ranked_acyclic)
qed

lemma stray_shortcut_db_invariant: "tree_invariant (nodes stray_shortcut_db)"
proof -
  have "single_parent (nodes stray_shortcut_db)"
    by (auto simp: single_parent_def child_rel_def stray_shortcut_db_def Node_def split: if_splits)
  moreover have "ranked tree_rank (nodes stray_shortcut_db)"
    by (simp add: ranked_def stray_shortcut_db_def Node_def tree_rank_def)
  ultimately show ?thesis by (simp add: tree_invariant_def ranked_acyclic)
qed

lemmas eval_delete =
  delete_selected_def unlink_from_parent_def find_parent_folder_def remove_shortcut_for_target_def
  remove_shortcut_def retarget_def is_shortcut_to_def Node_def Let_def

lemma delete_tree_db:
  "delete_selected 3 \<lparr>view_db = tree_db, current_folder_id = ''a''\<rparr> (Some ''a'') True =
     Inr \<lparr>view_db = tree_db\<lparr>nodes :=
             [(''q'', Node ''q'' Folder ''QuickCopy''), (''v'', Node ''v'' Folder ''Favorites'')]\<rparr>,
          current_folder_id = ''q''\<rparr>"
  by (simp add: eval_delete tree_db_def numeral_3_eq_3)

section \<open>Facts about the collection of a subtree\<close>

lemma walk_children_spec:
  assumes ih: "\<And>c out r. walk fuel ns c out = Some r \<Longrightarrow>
                 \<exists>ys. r = out @ ys \<and> set ys = {x \<in> below ns c. map_of ns x \<noteq> None}"
  shows "fold (\<lambda>cid acc. Option.bind acc (walk fuel ns cid)) cs (Some out) = Some r \<Longrightarrow>
         \<exists>ys. r = out @ ys \<and> set ys = {x \<in> (\<Union>c \<in> set cs. below ns c). map_of ns x \<noteq> None}"
proof (induction cs arbitrary: out)
  case Nil
  then show ?case by simp
next
  case (Cons c cs)
  from Cons.prems obtain r1 where w: "walk fuel ns c out = Some r1"
    and f: "fold (\<lambda>cid acc. Option.bind acc (walk fuel ns cid)) cs (Some r1) = Some r"
    by (cases "walk fuel ns c out") auto
  from ih [OF w] obtain ys1 where 1: "r1 = out @ ys1"
    "set ys1 = {x \<in> below ns c. map_of ns x \<noteq> None}" by blast
  from Cons.IH [OF f] obtain ys2 where 2: "r = r1 @ ys2"
    "set ys2 = {x \<in> (\<Union>c \<in> set cs. below ns c). map_of ns x \<noteq> None}" by blast
  have "r = out @ (ys1 @ ys2)" by (simp add: 1 2)
  moreover have "set (ys1 @ ys2) = {x \<in> (\<Union>c \<in> set (c # cs). below ns c). map_of ns x \<noteq> None}"
    unfolding set_append 1(2) 2(2) by auto
  ultimately show ?case by blast
qed

lemma walk_spec:
  "walk fuel ns i out = Some r \<Longrightarrow>
   \<exists>ys. r = out @ ys \<and> set ys = {x \<in> below ns i. map_of ns x \<noteq> None}"
proof (induction fuel arbitrary: i out r)
  case 0
  then show ?case by simp
next
  case (Suc fuel)
  show ?case
  proof (cases "map_of ns i")
    case None
    then have b: "below ns i = {i}" by (intro below_leaf) simp
    from None Suc.prems have "r = out @ []" by simp
    moreover from None have "set [] = {x \<in> below ns i. map_of ns x \<noteq> None}" by (auto simp: b)
    ultimately show ?thesis by blast
  next
    case (Some n)
    show ?thesis
    proof (cases "ntype n = Folder")
      case False
      with Some have b: "below ns i = {i}" by (intro below_leaf) simp
      from Some False Suc.prems have "r = out @ [i]" by simp
      moreover from Some have "set [i] = {x \<in> below ns i. map_of ns x \<noteq> None}" by (auto simp: b)
      ultimately show ?thesis by blast
    next
      case True
      from Some True Suc.prems
      have f: "fold (\<lambda>cid acc. Option.bind acc (walk fuel ns cid)) (children n) (Some (out @ [i])) = Some r"
        by simp
      from walk_children_spec [where fuel = fuel and ns = ns, OF Suc.IH f]
      obtain ys where ys: "r = (out @ [i]) @ ys"
        "set ys = {x \<in> (\<Union>c \<in> set (children n). below ns c). map_of ns x \<noteq> None}" by blast
      have "r = out @ (i # ys)" by (simp add: ys(1))
      moreover have "set (i # ys) = {x \<in> below ns i. map_of ns x \<noteq> None}"
        unfolding below_folder [OF Some True] using Some by (auto simp: ys(2))
      ultimately show ?thesis by blast
    qed
  qed
qed

lemma walk_root_first:
  assumes "walk fuel ns i [] = Some r" and "map_of ns i = Some n"
  shows "\<exists>ys. r = i # ys"
proof (cases fuel)
  case 0
  with assms show ?thesis by simp
next
  case (Suc f)
  show ?thesis
  proof (cases "ntype n = Folder")
    case False
    with assms Suc have "r = [i]" by simp
    then show ?thesis by blast
  next
    case True
    with assms Suc
    have f: "fold (\<lambda>cid acc. Option.bind acc (walk f ns cid)) (children n) (Some [i]) = Some r"
      by simp
    have ih: "\<And>c out r. walk f ns c out = Some r \<Longrightarrow>
                 \<exists>ys. r = out @ ys \<and> set ys = {x \<in> below ns c. map_of ns x \<noteq> None}"
      by (rule walk_spec)
    from walk_children_spec [where fuel = f and ns = ns, OF ih f]
    show ?thesis by auto
  qed
qed

lemma walk_children_total:
  assumes "\<And>c out. c \<in> set cs \<Longrightarrow> walk fuel ns c out \<noteq> None"
  shows "fold (\<lambda>cid acc. Option.bind acc (walk fuel ns cid)) cs (Some out) \<noteq> None"
  using assms
proof (induction cs arbitrary: out)
  case Nil
  then show ?case by simp
next
  case (Cons c cs)
  from Cons.prems [of c out] obtain r where w: "walk fuel ns c out = Some r" by fastforce
  from Cons.IH [of r] Cons.prems w show ?case by simp
qed

lemma walk_total:
  assumes "acyclic (child_rel ns)"
  shows "\<exists>N. \<forall>fuel \<ge> N. \<forall>out. walk fuel ns i out \<noteq> None"
  using wf_child_rel [OF assms]
proof (induction i rule: wf_induct_rule)
  case (less i)
  show ?case
  proof (cases "\<exists>n. map_of ns i = Some n \<and> ntype n = Folder")
    case False
    have "walk fuel ns i out \<noteq> None" if "fuel \<ge> 1" for fuel out
    proof -
      from that obtain f where f: "fuel = Suc f" by (cases fuel) auto
      from False show ?thesis by (auto simp: f split: option.splits)
    qed
    then show ?thesis by blast
  next
    case True
    then obtain n where n: "map_of ns i = Some n" "ntype n = Folder" by blast
    have "\<exists>N. \<forall>fuel \<ge> N. \<forall>c \<in> set (children n). (\<forall>out. walk fuel ns c out \<noteq> None)"
    proof (rule list_bound)
      fix c assume "c \<in> set (children n)"
      with n have "(c, i) \<in> child_rel ns" by (auto intro: child_relI)
      then show "\<exists>N. \<forall>fuel \<ge> N. \<forall>out. walk fuel ns c out \<noteq> None" by (rule less.IH)
    qed
    then obtain N where N: "\<And>fuel c out. fuel \<ge> N \<Longrightarrow> c \<in> set (children n) \<Longrightarrow>
        walk fuel ns c out \<noteq> None" by blast
    have "walk fuel ns i out \<noteq> None" if "fuel \<ge> Suc N" for fuel out
    proof -
      from that obtain f where f: "fuel = Suc f" "f \<ge> N" by (cases fuel) auto
      have "fold (\<lambda>cid acc. Option.bind acc (walk f ns cid)) (children n) (Some (out @ [i])) \<noteq> None"
        by (rule walk_children_total) (rule N [OF f(2)])
      with n show ?thesis by (simp add: f(1))
    qed
    then show ?thesis by blast
  qed
qed

section \<open>Facts about the export of a subtree\<close>

lemma export_entry_props: "export_entry n = Inr e \<Longrightarrow> exported_as n e"
  by (auto simp: export_entry_def exported_as_def split: if_splits option.splits)

lemma export_entry_ok: "exportable n \<Longrightarrow> \<exists>e. export_entry n = Inr e"
  by (auto simp: export_entry_def exportable_def)

lemma keys_update_append:
  "\<exists>zs. map fst (AList.update k v al) = map fst al @ zs"
  by (induction al) auto

lemma export_nodes_spec:
  "export_nodes is ns acc = Inr r \<Longrightarrow>
     fst ` set r = fst ` set acc \<union> set is
     \<and> (\<exists>zs. map fst r = map fst acc @ zs)
     \<and> (\<forall>i. i \<notin> set is \<longrightarrow> map_of r i = map_of acc i)
     \<and> (\<forall>i n. i \<in> set is \<and> map_of ns i = Some n \<longrightarrow> (\<exists>e. map_of r i = Some e \<and> exported_as n e))"
proof (induction "is" arbitrary: acc)
  case Nil
  then show ?case by simp
next
  case (Cons i0 rest)
  from Cons.prems obtain n0 e0 where n0: "map_of ns i0 = Some n0" and e0: "export_entry n0 = Inr e0"
    and r: "export_nodes rest ns (AList.update i0 e0 acc) = Inr r"
    by (auto simp: ebind_def split: option.splits sum.splits)
  note ih = Cons.IH [OF r]
  have k: "fst ` set (AList.update i0 e0 acc) = {i0} \<union> fst ` set acc" by (rule dom_update)
  from ih have "fst ` set r = fst ` set (AList.update i0 e0 acc) \<union> set rest" by (rule conjunct1)
  then have 1: "fst ` set r = fst ` set acc \<union> set (i0 # rest)" unfolding k by auto
  from ih obtain zs where "map fst r = map fst (AList.update i0 e0 acc) @ zs" by blast
  moreover obtain zs0 where "map fst (AList.update i0 e0 acc) = map fst acc @ zs0"
    using keys_update_append [of i0 e0 acc] by blast
  ultimately have 2: "\<exists>zs. map fst r = map fst acc @ zs" by simp
  from ih have 3: "\<forall>i. i \<notin> set (i0 # rest) \<longrightarrow> map_of r i = map_of acc i"
    by (simp add: update_conv')
  have 4: "\<exists>e. map_of r i = Some e \<and> exported_as n e"
    if "i \<in> set (i0 # rest)" "map_of ns i = Some n" for i n
  proof (cases "i \<in> set rest")
    case True
    with ih that(2) show ?thesis by blast
  next
    case False
    with that(1) have i: "i = i0" by simp
    from ih False have "map_of r i = map_of (AList.update i0 e0 acc) i" by blast
    then have "map_of r i = Some e0" by (simp add: i update_conv')
    moreover from that(2) n0 e0 have "exported_as n e0" by (simp add: i export_entry_props)
    ultimately show ?thesis by blast
  qed
  from 1 2 3 4 show ?case by blast
qed

lemma export_nodes_ok:
  "(\<And>i. i \<in> set is \<Longrightarrow> \<exists>n. map_of ns i = Some n \<and> exportable n) \<Longrightarrow>
   \<exists>r. export_nodes is ns acc = Inr r"
proof (induction "is" arbitrary: acc)
  case Nil
  then show ?case by simp
next
  case (Cons i0 rest)
  from Cons.prems [of i0] obtain n0 where n0: "map_of ns i0 = Some n0" "exportable n0" by auto
  from export_entry_ok [OF n0(2)] obtain e0 where e0: "export_entry n0 = Inr e0" by blast
  from Cons.IH [of "AList.update i0 e0 acc"] Cons.prems
  obtain r where "export_nodes rest ns (AList.update i0 e0 acc) = Inr r" by auto
  with n0 e0 show ?case by (simp add: ebind_def)
qed

lemma export_bundle_unfold:
  "export_bundle fuel d root = Inr b \<Longrightarrow>
   \<exists>ids ex. walk fuel (nodes d) root [] = Some ids \<and> export_nodes ids (nodes d) [] = Inr ex
     \<and> b = JObj [(''bundle_root_id'', JStr root), (''nodes'', JObj ex)]"
proof (cases "walk fuel (nodes d) root []")
  case None
  assume "export_bundle fuel d root = Inr b"
  with None show ?thesis by (simp add: export_bundle_def collect_subtree_def)
next
  case (Some ids)
  assume a: "export_bundle fuel d root = Inr b"
  show ?thesis
  proof (cases "export_nodes ids (nodes d) []")
    case (Inl e)
    with Some a show ?thesis by (simp add: export_bundle_def collect_subtree_def ebind_def)
  next
    case (Inr entries)
    with Some a have "b = JObj [(''bundle_root_id'', JStr root), (''nodes'', JObj entries)]"
      by (simp add: export_bundle_def collect_subtree_def ebind_def)
    with Some Inr show ?thesis by blast
  qed
qed

lemma favored_db_acyclic: "acyclic (child_rel (nodes favored_db))"
proof -
  have "ranked favored_rank (nodes favored_db)"
    by (simp add: ranked_def favored_db_def Node_def favored_rank_def)
  then show ?thesis by (rule ranked_acyclic)
qed

lemma below_favorites: "below (nodes favored_db) ''v'' = {''v'', ''s''}"
proof -
  have v: "map_of (nodes favored_db) ''v'' = Some ((Node ''v'' Folder ''Favorites'')\<lparr>children := [''s'']\<rparr>)"
    by (simp add: favored_db_def)
  have "below (nodes favored_db) ''s'' = {''s''}"
    by (rule below_leaf) (simp add: favored_db_def Node_def)
  with below_folder [OF v] show ?thesis by (simp add: Node_def)
qed

lemma export_favorites:
  "export_bundle 2 favored_db ''v'' =
     Inr (JObj [(''bundle_root_id'', JStr ''v''),
                (''nodes'', JObj
                  [(''v'', JObj [(''id'', JStr ''v''), (''type'', JStr ''folder''),
                                 (''name'', JStr ''Favorites''),
                                 (''children'', JArr [JStr ''s'']), (''content'', JNull)]),
                   (''s'', JObj [(''id'', JStr ''s''), (''type'', JStr ''shortcut''),
                                 (''name'', JStr ''Note''), (''children'', JArr []),
                                 (''content'',
                                    JObj [(''read_rich'', blank_rich_doc),
                                          (''copy_blocks'', JArr [blank_rich_doc])])])])])"
  by (simp add: export_bundle_def collect_subtree_def export_entry_def ebind_def favored_db_def
      Node_def numeral_2_eq_2 type_str_def)

section \<open>The content of a file\<close>

text \<open>
  Claim C6. The \<^verbatim>\<open>copy_docs\<close> of a file is never empty. Whatever value
  \<^verbatim>\<open>_upgrade_legacy_content\<close> is given, the \<^verbatim>\<open>copy_docs\<close> it returns is not empty; it
  is the list of one blank document when the stored \<^verbatim>\<open>copy_docs\<close> is absent or empty and
  either the content is in the current shape or the legacy \<^verbatim>\<open>copy_blocks\<close> is absent or
  empty too. Every file node of a store that \<^verbatim>\<open>db_from_dict\<close> returns carries content
  with a nonempty \<^verbatim>\<open>copy_docs\<close>. \<^verbatim>\<open>_remove_block\<close> leaves a list of one section as it
  is, and never returns an empty list from a nonempty one.
\<close>

theorem copy_docs_never_empty:
  "(\<forall>j fc. upgrade_legacy_content j = Inr fc \<longrightarrow> truthy (copy_docs fc))
   \<and> (\<forall>c. absent_or_empty (map_of c ''copy_docs'')
          \<and> (map_of c ''read_doc'' \<noteq> None \<or> map_of c ''copy_docs'' \<noteq> None
               \<or> absent_or_empty (map_of c ''copy_blocks''))
        \<longrightarrow> (\<exists>fc. upgrade_legacy_content (JObj c) = Inr fc \<and> copy_docs fc = JArr [blank_rich_doc]))
   \<and> (\<forall>data s d s'. db_from_dict data s = Inr (d, s') \<longrightarrow> all_nodes (\<lambda>k. has_copy_docs) (nodes d))
   \<and> (\<forall>locked (bw :: json list) idx. length bw = 1 \<longrightarrow> remove_block locked bw idx = bw)
   \<and> (\<forall>locked (bw :: json list) idx. bw \<noteq> [] \<longrightarrow> remove_block locked bw idx \<noteq> [])"
  using upgrade_copy_docs_truthy upgrade_absent_or_empty db_from_dict_has_copy_docs
    remove_block_sole remove_block_nonempty
  by blast

theorem copy_docs_never_empty_witness:
  "all_nodes (\<lambda>k. has_copy_docs) (nodes (fst (projr (db_from_dict hello_document uuids))))
   \<and> upgrade_legacy_content (JObj [(''read_doc'', blank_rich_doc), (''copy_docs'', JArr [])])
       = Inr \<lparr>read_doc = blank_rich_doc, copy_docs = JArr [blank_rich_doc]\<rparr>
   \<and> remove_block False [blank_rich_doc] 0 = [blank_rich_doc]"
proof -
  have "db_from_dict hello_document uuids = Inr (d, uuids) \<Longrightarrow> all_nodes (\<lambda>k. has_copy_docs) (nodes d)"
    for d using copy_docs_never_empty by blast
  from this [OF hello_document_loaded]
  have "all_nodes (\<lambda>k. has_copy_docs) (nodes (fst (projr (db_from_dict hello_document uuids))))"
    by (simp only: hello_document_loaded sum.sel fst_conv)
  moreover have "upgrade_legacy_content (JObj [(''read_doc'', blank_rich_doc), (''copy_docs'', JArr [])])
       = Inr \<lparr>read_doc = blank_rich_doc, copy_docs = JArr [blank_rich_doc]\<rparr>"
    by (simp add: upgrade_legacy_content_def get_or_def blank_rich_doc_def)
  moreover have "remove_block False [blank_rich_doc] 0 = [blank_rich_doc]"
    using copy_docs_never_empty by simp
  ultimately show ?thesis by blast
qed

text \<open>
  Claim C7. A legacy file content \<^verbatim>\<open>{read_text: s, copy_blocks: [s1, ..., sn]}\<close> with
  \<open>n \<ge> 1\<close> is upgraded to a content whose \<^verbatim>\<open>read_doc\<close> has the text \<open>s\<close> and no
  tags and whose \<^verbatim>\<open>copy_docs\<close> are \<open>n\<close> documents with the texts \<open>s1, ..., sn\<close> in
  this order and no tags; a file entry with this content is parsed to a node with that
  content.
\<close>

theorem legacy_content_upgraded:
  assumes "map_of c ''read_doc'' = None" and "map_of c ''copy_docs'' = None"
    and "map_of c ''read_text'' = Some (JStr s)"
    and "map_of c ''copy_blocks'' = Some (JArr (map JStr ss))" and "ss \<noteq> []"
  shows "upgrade_legacy_content (JObj c) =
           Inr \<lparr>read_doc = JObj [(''text'', JStr s), (''tags'', JArr [])],
                copy_docs = JArr (map (\<lambda>t. JObj [(''text'', JStr t), (''tags'', JArr [])]) ss)\<rparr>
       \<and> (\<forall>k d n. map_of d ''type'' = Some (JStr ''file'') \<and> map_of d ''content'' = Some (JObj c)
             \<and> parse_node k d = Inr n \<longrightarrow>
           content n = Some \<lparr>read_doc = JObj [(''text'', JStr s), (''tags'', JArr [])],
                copy_docs = JArr (map (\<lambda>t. JObj [(''text'', JStr t), (''tags'', JArr [])]) ss)\<rparr>)"
proof -
  from assms(3) have ne: "c \<noteq> []" by auto
  note up = upgrade_legacy_shape [OF assms]
  show ?thesis
    using up parse_node_file_content [OF _ _ ne up] by blast
qed

theorem legacy_content_upgraded_witness:
  "upgrade_legacy_content hello_content =
     Inr \<lparr>read_doc = JObj [(''text'', JStr ''hello''), (''tags'', JArr [])],
          copy_docs = JArr [JObj [(''text'', JStr ''a''), (''tags'', JArr [])],
                            JObj [(''text'', JStr ''b''), (''tags'', JArr [])]]\<rparr>"
  using legacy_content_upgraded
    [of "[(''read_text'', JStr ''hello''), (''copy_blocks'', JArr [JStr ''a'', JStr ''b''])]"
      "''hello''" "[''a'', ''b'']"]
  by (simp add: hello_content_def)

section \<open>Keys and identifiers\<close>

text \<open>
  Claim C10. Every store that the program builds or changes keeps each node under its own
  identifier: \<^verbatim>\<open>db.nodes[k].id == k\<close> for every key \<open>k\<close>. This holds for the result of
  \<^verbatim>\<open>blank_database\<close> and of \<^verbatim>\<open>db_from_dict\<close>, which stores a parsed node under the
  \<^verbatim>\<open>id\<close> field of its entry and under the key of the entry only when that field is
  missing; and it is kept by the creation of a folder or a file, by the addition and the
  removal of a favorite shortcut, by renaming and deleting, and by both imports.
\<close>

theorem key_consistency:
  "key_consistent (nodes (fst (blank_database s0)))
   \<and> (\<forall>data s d s'. db_from_dict data s = Inr (d, s') \<longrightarrow> key_consistent (nodes d))
   \<and> (\<forall>k d n. parse_node k d = Inr n \<longrightarrow>
          nid n = entry_id k d)
   \<and> (\<forall>v answer s. key_consistent (nodes (view_db v)) \<longrightarrow>
          key_consistent (nodes (view_db (fst (create_folder v answer s))))
        \<and> key_consistent (nodes (view_db (fst (create_file v answer s)))))
   \<and> (\<forall>d f sel s. key_consistent (nodes d) \<longrightarrow>
          key_consistent (nodes (fst (ensure_favorite_shortcut d f s)))
        \<and> key_consistent (nodes (fst (add_shortcut_for_target d f s)))
        \<and> key_consistent (nodes (fst (toggle_favorite_selected d sel s)))
        \<and> key_consistent (nodes (fst (fv_toggle_favorite d sel s))))
   \<and> (\<forall>d sel answer. key_consistent (nodes d) \<longrightarrow>
          key_consistent (nodes (rename_selected d sel answer)))
   \<and> (\<forall>fuel v sel confirm v'. key_consistent (nodes (view_db v))
          \<and> delete_selected fuel v sel confirm = Inr v' \<longrightarrow> key_consistent (nodes (view_db v')))
   \<and> (\<forall>v raw s v' s'. key_consistent (nodes (view_db v))
          \<and> import_bundle v raw s = Inr (v', s') \<longrightarrow> key_consistent (nodes (view_db v')))
   \<and> (\<forall>d bundle t s r d' s'. key_consistent (nodes d)
          \<and> import_bundle_into_folder d bundle t s = Inr (r, d', s') \<longrightarrow> key_consistent (nodes d'))"
proof -
  have "nid n = entry_id k d"
    if "parse_node k d = Inr n" for k d n
    using that
    by (auto simp: parse_node_def ebind_def str_field_def Let_def entry_id_def
          split: sum.splits option.splits json.splits if_splits)
  note parsed = this
  note kept = key_consistent_blank_database key_consistent_db_from_dict
      key_consistent_create_node key_consistent_ensure_favorite_shortcut
      key_consistent_add_shortcut_for_target key_consistent_toggle_favorite_selected
      key_consistent_fv_toggle_favorite key_consistent_rename_selected
      key_consistent_delete_selected key_consistent_import_bundle
      key_consistent_import_bundle_into_folder
  show ?thesis
    unfolding create_folder_def create_file_def
    apply (intro conjI allI impI)
    apply (blast intro: kept parsed)+
    done
qed

theorem key_consistency_witness:
  "key_consistent (nodes sample_db)
   \<and> key_consistent (nodes (view_db (fst (create_folder
        \<lparr>view_db = sample_db, current_folder_id = ''q''\<rparr> (Some ''Deeds'') uuids))))"
proof -
  have k: "key_consistent (nodes sample_db)"
    by (simp add: sample_db_def key_consistent_def Node_def)
  note c = key_consistency [THEN conjunct2, THEN conjunct2, THEN conjunct2, THEN conjunct1,
      THEN spec, THEN spec, THEN spec, THEN mp, THEN conjunct1]
  from c [of "\<lparr>view_db = sample_db, current_folder_id = ''q''\<rparr>" "Some ''Deeds''" uuids] k
  show ?thesis by simp
qed

section \<open>Saving and loading\<close>

text \<open>
  Claim C1, as amended. For a store whose keys are distinct, in which every node is stored
  under its own identifier, both root identifiers are nonempty and keys of the store, every
  file node carries content whose \<^verbatim>\<open>read_doc\<close> and \<^verbatim>\<open>copy_docs\<close> are not empty and
  no other node carries content, \<^verbatim>\<open>db_from_dict(db_to_dict(db))\<close> is \<open>db\<close>: the same root
  identifiers, the same nodes under the same keys in the same order, the same children in
  the same order. No new identifier is drawn.
\<close>

theorem db_roundtrip:
  assumes "roundtrip_db d"
  shows "db_from_dict (db_to_dict d) s = Inr (d, s)"
proof -
  let ?items = "map (\<lambda>kn. (fst kn, node_to_dict (snd kn))) (nodes d)"
  from assms have p: "parse_nodes ?items [] = Inr (nodes d)"
    using parse_nodes_node_to_dict [of "nodes d" "[]"] by (simp add: roundtrip_db_def)
  have i: "items_of (JObj ?items) = Inr ?items"
    by (cases "nodes d") (simp_all add: items_of_def)
  from assms have q: "valid_key (Some (JStr (quickcopy_root_id d))) (nodes d) = Inr (Some (quickcopy_root_id d))"
    and f: "valid_key (Some (JStr (favorites_root_id d))) (nodes d) = Inr (Some (favorites_root_id d))"
    by (auto simp: roundtrip_db_def valid_key_def)
  show ?thesis
    by (simp add: db_from_dict_def db_to_dict_def i p q f ebind_def migrate_pinned_node_to_dict)
qed

theorem db_roundtrip_witness:
  "roundtrip_db sample_db \<and> db_from_dict (db_to_dict sample_db) uuids = Inr (sample_db, uuids)"
proof -
  have w: "roundtrip_db sample_db"
    by (simp add: roundtrip_db_def sample_db_def key_consistent_def roundtrip_node_def Node_def)
  from w db_roundtrip [OF w, of uuids] show ?thesis by simp
qed

text \<open>
  The law as the specification words it asks only that both roots are present as folders
  and that every file node carries content. That is not enough: \<^verbatim>\<open>db_from_dict\<close> stores
  a node under its \<^verbatim>\<open>id\<close> field, so a node kept under another key comes back under a
  different key.
\<close>

theorem roundtrip_counterexample:
  "stated_well_formed misfiled_db
   \<and> db_from_dict (db_to_dict misfiled_db) uuids = Inr (refiled_db, uuids)
   \<and> map_of (nodes misfiled_db) ''x'' = Some (Node ''y'' Folder ''Stray'')
   \<and> map_of (nodes refiled_db) ''x'' = None"
  by (simp add: stated_well_formed_def is_folder_at_def misfiled_db_def refiled_db_def
        eval_db_from_dict)

text \<open>
  The other conditions are needed as well: an empty \<^verbatim>\<open>copy_docs\<close> comes back as one blank
  document, the content of a node that is no file is not written, and an empty root
  identifier counts as missing, so that new roots are made.
\<close>

lemma roundtrip_needs_copy_docs:
  "stated_well_formed no_copy_docs_db
   \<and> db_from_dict (db_to_dict no_copy_docs_db) uuids =
       Inr (no_copy_docs_db\<lparr>nodes :=
              [(''q'', (Node ''q'' Folder ''QuickCopy'')\<lparr>children := [''f'']\<rparr>),
               (''v'', Node ''v'' Folder ''Favorites''),
               (''f'', (Node ''f'' File ''Note'')\<lparr>content :=
                  Some \<lparr>read_doc = blank_rich_doc, copy_docs = JArr [blank_rich_doc]\<rparr>\<rparr>)]\<rparr>, uuids)"
  by (simp add: stated_well_formed_def is_folder_at_def no_copy_docs_db_def eval_db_from_dict)

lemma roundtrip_needs_content_on_files_only:
  "stated_well_formed folder_content_db
   \<and> db_from_dict (db_to_dict folder_content_db) uuids =
       Inr (folder_content_db\<lparr>nodes :=
              [(''q'', Node ''q'' Folder ''QuickCopy''),
               (''v'', Node ''v'' Folder ''Favorites'')]\<rparr>, uuids)"
  by (simp add: stated_well_formed_def is_folder_at_def folder_content_db_def eval_db_from_dict)

lemma roundtrip_needs_nonempty_root_id:
  "stated_well_formed empty_root_id_db
   \<and> db_from_dict (db_to_dict empty_root_id_db) uuids =
       Inr (\<lparr>quickcopy_root_id = ''u+'', favorites_root_id = ''u'',
             nodes = [(''u'', Node ''u'' Folder ''Favorites''),
                      (''u+'', Node ''u+'' Folder ''QuickCopy''),
                      ([], Node [] Folder ''QuickCopy''),
                      (''v'', Node ''v'' Folder ''Favorites'')]\<rparr>, \<lambda>n. uuids (Suc (Suc n)))"
  by (simp add: stated_well_formed_def is_folder_at_def empty_root_id_db_def eval_db_from_dict
        uuids_def)

section \<open>The pinned flag\<close>

text \<open>
  Claim C3, as amended. Take a document whose \<^verbatim>\<open>nodes\<close> are a dict that parses and whose
  \<^verbatim>\<open>quickcopy_root_id\<close> is valid: a nonempty string that is the identifier of a parsed
  node. Let \<^verbatim>\<open>db_from_dict\<close> return a store whose Favorites root is a folder, drawing
  identifiers that are not yet in use. Then every raw entry with \<^verbatim>\<open>pinned: true\<close> whose
  identifier resolves to a file node has a shortcut under the Favorites root that targets
  it. The shortcut is made by \<^verbatim>\<open>_ensure_favorite_shortcut\<close>, which changes nothing when
  the target has a shortcut already and otherwise adds a shortcut for the target alone,
  and only when the target is a file and the Favorites root a folder.
\<close>

theorem pinned_files_become_favorites:
  assumes "map_of dat ''nodes'' = Some (JObj items)" and "parse_nodes items [] = Inr ns"
    and "map_of dat ''quickcopy_root_id'' = Some (JStr q)" and "q \<noteq> []" and "map_of ns q \<noteq> None"
    and "fresh s ns"
    and "db_from_dict (JObj dat) s = Inr (d, s')"
    and "is_folder_at (nodes d) (favorites_root_id d)"
  shows "(\<forall>k raw. (k, JObj raw) \<in> set items \<and> map_of raw ''pinned'' = Some (JBool True)
            \<and> is_file_at ns (entry_id k raw) \<longrightarrow> is_favorited d (entry_id k raw))
       \<and> (\<forall>d f s. is_favorited d f \<longrightarrow> ensure_favorite_shortcut d f s = (d, s))
       \<and> (\<forall>d f s d' s' g. ensure_favorite_shortcut d f s = (d', s') \<and> fresh s (nodes d) \<longrightarrow>
             is_favorited d' g = (is_favorited d g \<or>
               (g = f \<and> is_folder_at (nodes d) (favorites_root_id d) \<and> is_file_at (nodes d) f)))"
proof -
  obtain d0 s0 where m: "migrate_pinned items d0 s0 = (d, s')"
    and fr: "fresh s0 (nodes d0)"
    and fi: "\<And>k. is_file_at ns k \<Longrightarrow> is_file_at (nodes d0) k"
    using pinned_current_path [OF assms(1-5,7)] assms(6) by metis
  have fo: "is_folder_at (nodes d0) (favorites_root_id d0)"
  proof (rule ccontr)
    assume "\<not> ?thesis"
    from migrate_pinned_idle [OF this, of items s0] m assms(8) this show False by simp
  qed
  from migrate_pinned_step [OF m fr fo] fi
  have "\<forall>k raw. (k, JObj raw) \<in> set items \<and> map_of raw ''pinned'' = Some (JBool True)
            \<and> is_file_at ns (entry_id k raw) \<longrightarrow> is_favorited d (entry_id k raw)"
    by blast
  moreover have "\<forall>d f s. is_favorited d f \<longrightarrow> ensure_favorite_shortcut d f s = (d, s)"
    using ensure_skips by blast
  moreover have "\<forall>d f s d' s' g. ensure_favorite_shortcut d f s = (d', s') \<and> fresh s (nodes d) \<longrightarrow>
             is_favorited d' g = (is_favorited d g \<or>
               (g = f \<and> is_folder_at (nodes d) (favorites_root_id d) \<and> is_file_at (nodes d) f))"
    using ensure_step(5) by blast
  ultimately show ?thesis by blast
qed

theorem pinned_files_become_favorites_witness:
  "db_from_dict pinned_document uuids = Inr (pinned_db, \<lambda>n. uuids (Suc (Suc n)))
   \<and> is_folder_at (nodes pinned_db) (favorites_root_id pinned_db)
   \<and> is_favorited pinned_db ''f''"
proof -
  have fo: "is_folder_at (nodes pinned_db) (favorites_root_id pinned_db)"
    by (simp add: pinned_db_def pinned_nodes_def is_folder_at_def Node_def)
  have fr: "fresh uuids pinned_nodes"
    by (rule fresh_uuids) (simp add: pinned_nodes_def)
  have q: "map_of pinned_nodes ''q'' \<noteq> None" by (simp add: pinned_nodes_def)
  note t = pinned_files_become_favorites [of "[(''quickcopy_root_id'', JStr ''q''), (''nodes'', JObj pinned_items)]"
      pinned_items pinned_nodes "''q''" uuids pinned_db "\<lambda>n. uuids (Suc (Suc n))",
      OF _ pinned_items_parsed _ _ q fr pinned_document_loaded [unfolded pinned_document_def] fo,
      THEN conjunct1, THEN spec, THEN spec, of "''f''"
        "[(''type'', JStr ''file''), (''name'', JStr ''Deed''), (''pinned'', JBool True)]"]
  have "is_favorited pinned_db ''f''"
    using t by (simp add: pinned_items_def pinned_nodes_def is_file_at_def entry_id_def Node_def)
  with pinned_document_loaded fo show ?thesis by simp
qed

text \<open>
  The claim speaks of every entry that carries the flag. An entry that is no file gets no
  shortcut: \<^verbatim>\<open>_ensure_favorite_shortcut\<close> returns when the target is not a file.
\<close>

theorem pinned_folder_counterexample:
  "db_from_dict pinned_document uuids = Inr (pinned_db, \<lambda>n. uuids (Suc (Suc n)))
   \<and> map_of pinned_items ''g'' =
       Some (JObj [(''type'', JStr ''folder''), (''name'', JStr ''Forms''), (''pinned'', JBool True)])
   \<and> is_folder_at (nodes pinned_db) (favorites_root_id pinned_db)
   \<and> \<not> is_favorited pinned_db ''g''"
  using pinned_document_loaded
  by (simp add: pinned_db_def pinned_nodes_def pinned_items_def is_folder_at_def is_favorited_def
        is_shortcut_to_def Node_def)

text \<open>
  In a document of the legacy shape the flag has no effect at all: \<^verbatim>\<open>db_from_dict\<close>
  returns from the branch that builds the new roots, before the loop that reads the flag.
\<close>

lemma legacy_pinned_not_migrated:
  "db_from_dict legacy_pinned_document uuids = Inr (legacy_pinned_db, \<lambda>n. uuids (Suc (Suc n)))
   \<and> is_folder_at (nodes legacy_pinned_db) (favorites_root_id legacy_pinned_db)
   \<and> is_file_at (nodes legacy_pinned_db) ''f''
   \<and> \<not> is_favorited legacy_pinned_db ''f''"
  by (simp add: legacy_pinned_document_def legacy_pinned_db_def eval_db_from_dict uuids_def
        is_folder_at_def is_file_at_def is_favorited_def)

section \<open>Renaming\<close>

text \<open>
  Claim C9. When \<^verbatim>\<open>rename_selected\<close> gives a new name to a file node (the selected node,
  or the target of the selected shortcut; no root), the file ends with the name
  \<^verbatim>\<open>safe_name(new_name)\<close>, and so does every shortcut among the children of the Favorites
  root whose \<^verbatim>\<open>target_id\<close> is the identifier of the file. A name that consists of white
  space only, or is empty, is normalised to \<^verbatim>\<open>Untitled\<close>.
\<close>

theorem rename_keeps_shortcut_names:
  assumes "map_of (nodes d) k = Some n0"
    and "nid n0 \<noteq> favorites_root_id d" and "nid n0 \<noteq> quickcopy_root_id d"
    and "rename_subject d k n0 = (k1, n1)" and "ntype n1 = File"
    and "d' = rename_selected d (Some k) (Some new_name)"
  shows "map_of (nodes d') k1 = Some (n1\<lparr>name := safe_name new_name\<rparr>)
       \<and> (\<forall>fav cid sc. map_of (nodes d') (favorites_root_id d') = Some fav \<and> ntype fav = Folder
             \<and> cid \<in> set (children fav) \<and> map_of (nodes d') cid = Some sc
             \<and> ntype sc = Shortcut \<and> target_id sc = Some (nid n1)
           \<longrightarrow> name sc = safe_name new_name)
       \<and> (list_all is_space new_name \<longrightarrow> safe_name new_name = ''Untitled'')"
proof -
  let ?n2 = "n1\<lparr>name := safe_name new_name\<rparr>"
  let ?ns1 = "AList.update k1 ?n2 (nodes d)"
  show ?thesis
  proof (cases "map_of ?ns1 (favorites_root_id d)")
    case None
    with assms have "d' = d\<lparr>nodes := ?ns1\<rparr>"
      by (simp add: rename_selected_def)
    with None show ?thesis by (simp add: update_conv' safe_name_blank)
  next
    case (Some fav)
    show ?thesis
    proof (cases "ntype fav = Folder")
      case False
      with Some assms have "d' = d\<lparr>nodes := ?ns1\<rparr>"
        by (simp add: rename_selected_def)
      with Some False show ?thesis by (simp add: update_conv' safe_name_blank)
    next
      case True
      with Some assms
      have d': "d' = d\<lparr>nodes := sync_shortcut_names (nid n1) (safe_name new_name) (children fav) ?ns1\<rparr>"
        by (simp add: rename_selected_def)
      have fav': "map_of (nodes d') (favorites_root_id d') = Some fav"
        using Some True by (simp add: d' sync_shortcut_names_lookup)
      have "map_of (nodes d') k1 = Some ?n2"
        using assms(5) by (simp add: d' sync_shortcut_names_lookup update_conv')
      moreover have "name sc = safe_name new_name"
        if "cid \<in> set (children fav)" "map_of (nodes d') cid = Some sc" "ntype sc = Shortcut"
          "target_id sc = Some (nid n1)" for cid sc
      proof -
        from that(2) obtain sc0 where "map_of ?ns1 cid = Some sc0"
          and sc: "sc = (if cid \<in> set (children fav) \<and> ntype sc0 = Shortcut
                          \<and> target_id sc0 = Some (nid n1)
                        then sc0\<lparr>name := safe_name new_name\<rparr> else sc0)"
          by (auto simp: d' sync_shortcut_names_lookup)
        from sc that(3,4) have "ntype sc0 = Shortcut" "target_id sc0 = Some (nid n1)"
          by (auto split: if_splits)
        with sc that(1) show ?thesis by simp
      qed
      ultimately show ?thesis using fav' by (auto simp: safe_name_blank)
    qed
  qed
qed

theorem rename_keeps_shortcut_names_witness:
  "rename_selected favored_db (Some ''f'') (Some ''  Will '') =
     favored_db\<lparr>nodes :=
        [(''q'', (Node ''q'' Folder ''QuickCopy'')\<lparr>children := [''f'']\<rparr>),
         (''v'', (Node ''v'' Folder ''Favorites'')\<lparr>children := [''s'']\<rparr>),
         (''f'', (Node ''f'' File ''Will'')\<lparr>content := Some FileContent\<rparr>),
         (''s'', (Node ''s'' Shortcut ''Will'')\<lparr>target_id := Some ''f''\<rparr>)]\<rparr>
   \<and> name (the (map_of (nodes (rename_selected favored_db (Some ''f'') (Some ''  Will ''))) ''s''))
       = safe_name ''  Will ''"
proof -
  have e: "rename_selected favored_db (Some ''f'') (Some ''  Will '') =
     favored_db\<lparr>nodes :=
        [(''q'', (Node ''q'' Folder ''QuickCopy'')\<lparr>children := [''f'']\<rparr>),
         (''v'', (Node ''v'' Folder ''Favorites'')\<lparr>children := [''s'']\<rparr>),
         (''f'', (Node ''f'' File ''Will'')\<lparr>content := Some FileContent\<rparr>),
         (''s'', (Node ''s'' Shortcut ''Will'')\<lparr>target_id := Some ''f''\<rparr>)]\<rparr>"
    by (simp add: rename_selected_def rename_subject_def favored_db_def Node_def
          sync_shortcut_names_def safe_name_def strip_def is_space_def)
  note t = rename_keeps_shortcut_names [of favored_db "''f''"
      "(Node ''f'' File ''Note'')\<lparr>content := Some FileContent\<rparr>" "''f''"
      "(Node ''f'' File ''Note'')\<lparr>content := Some FileContent\<rparr>" _ "''  Will ''",
      OF _ _ _ _ _ refl, THEN conjunct2, THEN conjunct1, THEN spec, THEN spec, THEN spec,
      of "(Node ''v'' Folder ''Favorites'')\<lparr>children := [''s'']\<rparr>" "''s''"
         "(Node ''s'' Shortcut ''Will'')\<lparr>target_id := Some ''f''\<rparr>"]
  have "name (the (map_of (nodes (rename_selected favored_db (Some ''f'') (Some ''  Will ''))) ''s''))
       = safe_name ''  Will ''"
    using t by (simp add: e) (simp add: favored_db_def Node_def rename_subject_def)
  with e show ?thesis by simp
qed

section \<open>Favorites\<close>

text \<open>
  Claim C8. Let \<open>f\<close> be the identifier of a file node, stored under \<open>f\<close>, in a store
  where at most one child of the Favorites root is a shortcut to \<open>f\<close>, and let the next
  identifier of \<^verbatim>\<open>new_id\<close> occur nowhere in the store. Then two calls of
  \<^verbatim>\<open>toggle_favorite_selected\<close> with the file selected leave the file favorited exactly
  when it was favorited before, and after the first call and after the second at most one
  child of the Favorites root is a shortcut to \<open>f\<close>. When the Favorites root is a folder
  the first call does change whether the file is favorited. The same holds for
  \<^verbatim>\<open>FileView._toggle_favorite\<close> with the file open.
\<close>

theorem toggle_favorite_twice:
  assumes "map_of (nodes d) f = Some t" and "ntype t = File" and "nid t = f"
    and "shortcut_count d f \<le> 1" and "unused (s 0) (nodes d)"
  shows "(\<forall>d1 s1 d2 s2. toggle_favorite_selected d (Some f) s = (d1, s1)
            \<and> toggle_favorite_selected d1 (Some f) s1 = (d2, s2) \<longrightarrow>
          is_favorited d2 f = is_favorited d f
          \<and> shortcut_count d1 f \<le> 1 \<and> shortcut_count d2 f \<le> 1
          \<and> (is_folder_at (nodes d) (favorites_root_id d) \<longrightarrow>
                is_favorited d1 f = (\<not> is_favorited d f)))
       \<and> (\<forall>d1 s1 d2 s2. fv_toggle_favorite d (Some f) s = (d1, s1)
            \<and> fv_toggle_favorite d1 (Some f) s1 = (d2, s2) \<longrightarrow>
          fv_is_favorited d2 (Some f) = fv_is_favorited d (Some f)
          \<and> shortcut_count d1 f \<le> 1 \<and> shortcut_count d2 f \<le> 1
          \<and> (f \<noteq> [] \<and> is_folder_at (nodes d) (favorites_root_id d) \<longrightarrow>
                fv_is_favorited d1 (Some f) = (\<not> fv_is_favorited d (Some f))))"
proof (rule conjI; intro allI impI; elim conjE)
  fix d1 s1 d2 s2
  assume a: "toggle_favorite_selected d (Some f) s = (d1, s1)"
    and b: "toggle_favorite_selected d1 (Some f) s1 = (d2, s2)"
  note a' = a [unfolded toggle_favorite_selected_file [OF assms(1-3)]]
  have k: "map_of (nodes d1) f = Some t"
    by (rule toggle_keeps_target [OF assms(1,2,4,5) a'])
  note b' = b [unfolded toggle_favorite_selected_file [OF k assms(2,3)]]
  show "is_favorited d2 f = is_favorited d f
          \<and> shortcut_count d1 f \<le> 1 \<and> shortcut_count d2 f \<le> 1
          \<and> (is_folder_at (nodes d) (favorites_root_id d) \<longrightarrow>
                is_favorited d1 f = (\<not> is_favorited d f))"
    by (rule toggle_twice_core [OF assms(1,2,4,5) a' b'])
next
  fix d1 s1 d2 s2
  assume a: "fv_toggle_favorite d (Some f) s = (d1, s1)"
    and b: "fv_toggle_favorite d1 (Some f) s1 = (d2, s2)"
  show "fv_is_favorited d2 (Some f) = fv_is_favorited d (Some f)
          \<and> shortcut_count d1 f \<le> 1 \<and> shortcut_count d2 f \<le> 1
          \<and> (f \<noteq> [] \<and> is_folder_at (nodes d) (favorites_root_id d) \<longrightarrow>
                fv_is_favorited d1 (Some f) = (\<not> fv_is_favorited d (Some f)))"
  proof (cases "f = []")
    case True
    with a b have "d1 = d" "d2 = d" by (simp_all add: fv_toggle_favorite_def)
    with True assms(4) show ?thesis by (simp add: fv_is_favorited_def)
  next
    case False
    note a' = a [unfolded fv_toggle_favorite_file [OF assms(1,2) False]]
    have k: "map_of (nodes d1) f = Some t"
      by (rule toggle_keeps_target [OF assms(1,2,4,5) a'])
    note b' = b [unfolded fv_toggle_favorite_file [OF k assms(2) False]]
    have fv: "fv_is_favorited x (Some f) = is_favorited x f" for x
      using False by (simp add: fv_is_favorited_def is_favorited_def)
    from toggle_twice_core [OF assms(1,2,4,5) a' b'] show ?thesis by (simp add: fv)
  qed
qed

theorem toggle_favorite_twice_witness:
  "shortcut_count favored_db ''f'' \<le> 1 \<and> unused (uuids 0) (nodes favored_db)
   \<and> is_favorited favored_db ''f''
   \<and> \<not> is_favorited (fst (toggle_favorite_selected favored_db (Some ''f'') uuids)) ''f''
   \<and> is_favorited
        (fst (toggle_favorite_selected (fst (toggle_favorite_selected favored_db (Some ''f'') uuids))
           (Some ''f'') (snd (toggle_favorite_selected favored_db (Some ''f'') uuids)))) ''f''"
proof -
  let ?t1 = "toggle_favorite_selected favored_db (Some ''f'') uuids"
  let ?t2 = "toggle_favorite_selected (fst ?t1) (Some ''f'') (snd ?t1)"
  have c: "shortcut_count favored_db ''f'' \<le> 1"
    by (simp add: shortcut_count_def favored_db_def is_shortcut_to_def Node_def)
  have u: "unused (uuids 0) (nodes favored_db)"
    by (simp add: unused_def favored_db_def uuids_def Node_def)
  have f: "is_favorited favored_db ''f''"
    by (simp add: is_favorited_def favored_db_def is_shortcut_to_def Node_def)
  have o: "is_folder_at (nodes favored_db) (favorites_root_id favored_db)"
    by (simp add: is_folder_at_def favored_db_def Node_def)
  have m: "map_of (nodes favored_db) ''f'' = Some ((Node ''f'' File ''Note'')\<lparr>content := Some FileContent\<rparr>)"
    by (simp add: favored_db_def)
  note t = toggle_favorite_twice [where s = uuids, OF m _ _ c u, THEN conjunct1, THEN spec, THEN spec, THEN spec,
      THEN spec, of "fst ?t1" "snd ?t1" "fst ?t2" "snd ?t2"]
  have "is_favorited (fst ?t2) ''f'' = is_favorited favored_db ''f''
        \<and> is_favorited (fst ?t1) ''f'' = (\<not> is_favorited favored_db ''f'')"
    using t o by (simp add: Node_def)
  with c u f show ?thesis by simp
qed

section \<open>Deleting\<close>

text \<open>
  Claim C5, as amended. Take a store with distinct keys that satisfies the tree invariant,
  and in it a node that is no root, stored under its own identifier, and that is a folder,
  a file, or a shortcut listed by no folder but the Favorites root. Then
  \<^verbatim>\<open>delete_selected\<close>, once confirmed, returns whenever the recursion limit is high
  enough; and when it returns, the node and all its descendants are absent from the store
  and no folder that remains lists the node or one of its descendants among its children.
\<close>

theorem delete_leaves_no_dangling_child:
  assumes "distinct (map fst (nodes (view_db v)))" and "tree_invariant (nodes (view_db v))"
    and "map_of (nodes (view_db v)) k = Some n" and "nid n = k"
    and "k \<noteq> favorites_root_id (view_db v)" and "k \<noteq> quickcopy_root_id (view_db v)"
    and "ntype n = Shortcut \<longrightarrow>
           (\<forall>p. (k, p) \<in> child_rel (nodes (view_db v)) \<longrightarrow> p = favorites_root_id (view_db v))"
  shows "(\<exists>N. \<forall>fuel \<ge> N. \<exists>v'. delete_selected fuel v (Some k) True = Inr v')
       \<and> (\<forall>fuel v'. delete_selected fuel v (Some k) True = Inr v' \<longrightarrow>
            (\<forall>x \<in> below (nodes (view_db v)) k. map_of (nodes (view_db v')) x = None)
          \<and> (\<forall>p m c. map_of (nodes (view_db v')) p = Some m \<and> ntype m = Folder
                \<and> c \<in> set (children m) \<longrightarrow> c \<notin> below (nodes (view_db v)) k))"
proof -
  let ?d = "view_db v" and ?ns = "nodes (view_db v)"
  from assms(2) have sp: "single_parent ?ns" and ac: "acyclic (child_rel ?ns)"
    by (simp_all add: tree_invariant_def)
  note unf = delete_selected_unfold [OF assms(3-6)]
  show ?thesis
  proof (cases "ntype n = Shortcut")
    case True
    let ?ns' = "nodes (remove_shortcut ?d k)"
    from assms(3) True have leaf: "below ?ns k = {k}" by (intro below_leaf) simp
    have gone: "map_of ?ns' x = None" if "x \<in> below ?ns k" for x
      using that by (simp add: leaf remove_shortcut_def delete_conv' Let_def)
    have nok: "(k, p) \<notin> child_rel ?ns'" for p
      by (rule remove_shortcut_unlinks) (use assms(7) True in blast)
    note nd = no_dangling_child [OF sp shrunk_remove_shortcut gone nok]
    have u: "delete_selected fuel v (Some k) True = Inr (v\<lparr>view_db := remove_shortcut ?d k\<rparr>)" for fuel
      using True by (simp add: unf)
    have post: "(\<forall>x \<in> below ?ns k. map_of (nodes (view_db v')) x = None)
          \<and> (\<forall>p m c. map_of (nodes (view_db v')) p = Some m \<and> ntype m = Folder
                \<and> c \<in> set (children m) \<longrightarrow> c \<notin> below ?ns k)"
      if "delete_selected fuel v (Some k) True = Inr v'" for fuel v'
    proof -
      from that have "v' = v\<lparr>view_db := remove_shortcut ?d k\<rparr>" by (simp add: u)
      then have nv: "nodes (view_db v') = ?ns'" by simp
      show ?thesis unfolding nv using gone nd by blast
    qed
    have "\<exists>v'. delete_selected fuel v (Some k) True = Inr v'" for fuel
      by (simp add: u)
    then have "\<exists>N. \<forall>fuel \<ge> N. \<exists>v'. delete_selected fuel v (Some k) True = Inr v'"
      by blast
    with post show ?thesis by (intro conjI allI impI) blast+
  next
    case False
    let ?d1 = "unlink_from_parent ?d k"
    let ?d2 = "if ntype n = File then remove_shortcut_for_target ?d1 k else ?d1"
    note un = unlink_from_parent_props [where k = k, OF assms(1) sp]
    have sh12: "shrunk (nodes ?d1) (nodes ?d2)"
      by (simp add: shrunk_refl shrunk_remove_shortcut_for_target)
    have sh2: "shrunk ?ns (nodes ?d2)"
      by (rule shrunk_trans [OF un(1) sh12])
    have ac2: "acyclic (child_rel (nodes ?d2))"
      by (rule acyclic_subset [OF ac shrunk_child_rel [OF sh2]])
    have nok2: "(k, p) \<notin> child_rel (nodes ?d2)" for p
      using un(2) [of p] shrunk_child_rel [OF sh12] by auto
    have b2: "below (nodes ?d2) k = below ?ns k"
    proof (cases "ntype n = File")
      case True
      from assms(3) True have "below ?ns k = {k}" by (intro below_leaf) simp
      moreover have "below (nodes ?d2) k = {k}"
      proof (rule below_leaf)
        fix m assume "map_of (nodes ?d2) k = Some m"
        with sh2 obtain m0 where "map_of ?ns k = Some m0" "ntype m = ntype m0"
          unfolding shrunk_def by blast
        with assms(3) True show "ntype m \<noteq> Folder" by simp
      qed
      ultimately show ?thesis by simp
    next
      case nf: False
      have "below (nodes ?d1) k = below ?ns k"
        by (rule below_unlinked [OF shrunk_child_rel [OF un(1)] ac un(3)])
      with nf show ?thesis by simp
    qed
    have res: "(\<forall>x \<in> below ?ns k. map_of ns' x = None)
          \<and> (\<forall>p m c. map_of ns' p = Some m \<and> ntype m = Folder
                \<and> c \<in> set (children m) \<longrightarrow> c \<notin> below ?ns k)"
      if d: "delete_subtree fuel k (nodes ?d2) = Some ns'" for fuel ns'
    proof -
      note spec = delete_subtree_spec [OF d]
      have gone: "map_of ns' x = None" if "x \<in> below ?ns k" for x
        using that by (simp add: spec b2 restrict_map_def)
      have sh: "shrunk ?ns ns'"
        by (rule shrunk_trans [OF sh2 shrunk_delete_subtree [OF d]])
      have nok: "(k, p) \<notin> child_rel ns'" for p
        using nok2 [of p] shrunk_child_rel [OF shrunk_delete_subtree [OF d]] by auto
      note nd = no_dangling_child [OF sp sh gone nok]
      from gone nd show ?thesis by blast
    qed
    have e: "map_of (nodes ?d2) = map_of (nodes ?d2) |` (- {})"
      by (simp add: restrict_map_def)
    from delete_subtree_total [OF ac2, of k] obtain N0
      where "\<forall>fuel \<ge> N0. \<forall>m S. map_of m = map_of (nodes ?d2) |` (- S)
               \<longrightarrow> delete_subtree fuel k m \<noteq> None" ..
    with e have N: "delete_subtree fuel k (nodes ?d2) \<noteq> None" if "fuel \<ge> N0" for fuel
      using that by blast
    have "\<exists>v'. delete_selected fuel v (Some k) True = Inr v'" if "fuel \<ge> N0" for fuel
    proof -
      from N [OF that] obtain ns' where "delete_subtree fuel k (nodes ?d2) = Some ns'" by blast
      with False show ?thesis by (simp add: unf Let_def)
    qed
    moreover have "(\<forall>x \<in> below ?ns k. map_of (nodes (view_db v')) x = None)
          \<and> (\<forall>p m c. map_of (nodes (view_db v')) p = Some m \<and> ntype m = Folder
                \<and> c \<in> set (children m) \<longrightarrow> c \<notin> below ?ns k)"
      if "delete_selected fuel v (Some k) True = Inr v'" for fuel v'
    proof -
      from that False have
        "(case delete_subtree fuel k (nodes ?d2) of None \<Rightarrow> Inl RecursionError
          | Some ns \<Rightarrow> Inr \<lparr>view_db = ?d2\<lparr>nodes := ns\<rparr>, current_folder_id = retarget v n\<rparr>)
         = Inr v'" by (simp add: unf Let_def)
      then obtain ns' where d: "delete_subtree fuel k (nodes ?d2) = Some ns'"
        and v': "nodes (view_db v') = ns'"
        by (cases "delete_subtree fuel k (nodes ?d2)") auto
      from res [OF d] v' show ?thesis by simp
    qed
    ultimately show ?thesis by (intro conjI allI impI exI [of _ N0]) blast+
  qed
qed

theorem delete_leaves_no_dangling_child_witness:
  "tree_invariant (nodes tree_db)
   \<and> delete_selected 3 \<lparr>view_db = tree_db, current_folder_id = ''a''\<rparr> (Some ''a'') True =
       Inr \<lparr>view_db = tree_db\<lparr>nodes :=
               [(''q'', Node ''q'' Folder ''QuickCopy''), (''v'', Node ''v'' Folder ''Favorites'')]\<rparr>,
            current_folder_id = ''q''\<rparr>
   \<and> ''g'' \<in> below (nodes tree_db) ''a''
   \<and> map_of [(''q'', Node ''q'' Folder ''QuickCopy''), (''v'', Node ''v'' Folder ''Favorites'')] ''g''
       = None"
proof -
  let ?v = "\<lparr>view_db = tree_db, current_folder_id = ''a''\<rparr>"
  have g: "''g'' \<in> below (nodes tree_db) ''a''"
  proof -
    have "(''g'', ''b'') \<in> child_rel (nodes tree_db)" "(''b'', ''a'') \<in> child_rel (nodes tree_db)"
      by (simp_all add: child_rel_def tree_db_def Node_def)
    then show ?thesis by (auto simp: below_def)
  qed
  have a: "map_of (nodes (view_db ?v)) ''a'' = Some ((Node ''a'' Folder ''Deeds'')\<lparr>children := [''b'', ''f'']\<rparr>)"
    by (simp add: tree_db_def)
  note t = delete_leaves_no_dangling_child [of ?v "''a''", OF _ _ a, THEN conjunct2, THEN spec,
      THEN spec, THEN mp, OF _ _ _ _ _ _ delete_tree_db, THEN conjunct1, THEN bspec, of "''g''"]
  have "map_of (nodes (view_db \<lparr>view_db = tree_db\<lparr>nodes :=
             [(''q'', Node ''q'' Folder ''QuickCopy''), (''v'', Node ''v'' Folder ''Favorites'')]\<rparr>,
          current_folder_id = ''q''\<rparr>)) ''g'' = None"
    by (rule t) (simp_all add: tree_db_invariant g, simp_all add: tree_db_def Node_def)
  with tree_db_invariant delete_tree_db g show ?thesis by simp
qed

text \<open>
  The claim as stated fails for a shortcut that a folder other than the Favorites root
  lists: deleting the shortcut removes its node and leaves the folder's child list as it
  was.
\<close>

theorem delete_shortcut_counterexample:
  "tree_invariant (nodes stray_shortcut_db)
   \<and> map_of (nodes stray_shortcut_db) ''s'' = Some ((Node ''s'' Shortcut ''Note'')\<lparr>target_id := Some ''f''\<rparr>)
   \<and> delete_selected 3 \<lparr>view_db = stray_shortcut_db, current_folder_id = ''q''\<rparr> (Some ''s'') True =
       Inr \<lparr>view_db = stray_shortcut_db\<lparr>nodes :=
               [(''q'', (Node ''q'' Folder ''QuickCopy'')\<lparr>children := [''f'', ''s'']\<rparr>),
                (''v'', Node ''v'' Folder ''Favorites''),
                (''f'', (Node ''f'' File ''Note'')\<lparr>content := Some FileContent\<rparr>)]\<rparr>,
            current_folder_id = ''q''\<rparr>"
  by (simp add: stray_shortcut_db_invariant) (simp add: eval_delete stray_shortcut_db_def)

section \<open>Exporting a subtree\<close>

text \<open>
  Claim C4 does not hold of \<^verbatim>\<open>export_bundle\<close>, in two ways. The function takes every
  node that is no folder for a file and reads \<^verbatim>\<open>n.content.read_rich\<close> and
  \<^verbatim>\<open>n.content.copy_blocks\<close>, while \<^verbatim>\<open>FileContent\<close> has the fields \<^verbatim>\<open>read_doc\<close> and
  \<^verbatim>\<open>copy_docs\<close>; and it writes no \<^verbatim>\<open>target_id\<close>, which \<^verbatim>\<open>db_to_dict\<close> does write.

  First, a subtree that holds a node with content that is no folder is never exported:
  whatever the recursion limit, the call raises.
\<close>

lemma export_nodes_entries:
  "export_nodes is ns acc = Inr r \<Longrightarrow> i \<in> set is \<Longrightarrow>
   \<exists>n e. map_of ns i = Some n \<and> export_entry n = Inr e"
proof (induction "is" arbitrary: acc)
  case Nil
  then show ?case by simp
next
  case (Cons i0 rest)
  from Cons.prems(1) obtain n0 where n0: "map_of ns i0 = Some n0"
    by (cases "map_of ns i0") simp_all
  from Cons.prems(1) n0 obtain e0 where e0: "export_entry n0 = Inr e0"
    by (cases "export_entry n0") (simp_all add: ebind_def)
  from Cons.prems(1) n0 e0 have r: "export_nodes rest ns (AList.update i0 e0 acc) = Inr r"
    by (simp add: ebind_def)
  show ?case
  proof (cases "i = i0")
    case True
    with n0 e0 show ?thesis by simp
  next
    case False
    with Cons.prems(2) have "i \<in> set rest" by simp
    with r show ?thesis by (rule Cons.IH)
  qed
qed

lemma export_entry_exportable: "export_entry n = Inr e \<Longrightarrow> exportable n"
  by (auto simp: export_entry_def exportable_def split: if_splits option.splits)

theorem export_bundle_raises:
  assumes x: "x \<in> below (nodes d) root" and n: "map_of (nodes d) x = Some n"
    and f: "ntype n \<noteq> Folder" and c: "content n = Some fc"
  shows "\<exists>e. export_bundle fuel d root = Inl e"
proof (cases "export_bundle fuel d root")
  case (Inl e)
  then show ?thesis by blast
next
  case (Inr b)
  from export_bundle_unfold [OF Inr] obtain ids entries
    where w: "walk fuel (nodes d) root [] = Some ids"
      and en: "export_nodes ids (nodes d) [] = Inr entries" by blast
  from walk_spec [OF w] have "set ids = {x \<in> below (nodes d) root. map_of (nodes d) x \<noteq> None}"
    by simp
  with x n have "x \<in> set ids" by simp
  from export_nodes_entries [OF en this] n obtain e where "export_entry n = Inr e" by auto
  then have "exportable n" by (rule export_entry_exportable)
  with f c show ?thesis by (simp add: exportable_def)
qed

text \<open>
  Every file of a store that \<^verbatim>\<open>db_from_dict\<close> returns has content, so no subtree of such
  a store that holds a file is exported.
\<close>

lemma export_loaded_file_raises:
  assumes "db_from_dict data s = Inr (d, s')"
    and "x \<in> below (nodes d) root" and "map_of (nodes d) x = Some n" and "ntype n = File"
  shows "\<exists>e. export_bundle fuel d root = Inl e"
proof -
  from db_from_dict_has_copy_docs [OF assms(1)] assms(3) have "has_copy_docs n"
    by (rule all_nodes_lookup)
  with assms(4) obtain fc where "content n = Some fc"
    by (auto simp: has_copy_docs_def split: option.splits)
  with assms(2,3,4) show ?thesis by (intro export_bundle_raises [where x = x and n = n and fc = fc]) simp_all
qed

text \<open>
  The failing input of Claim C4: the store \<open>sample_db\<close>, whose QuickCopy root \<open>q\<close> lists the
  file \<open>f\<close>, which carries a \<^verbatim>\<open>FileContent\<close>. The claim promises the bundle of \<open>q\<close> and
  \<open>f\<close>; the call raises \<^verbatim>\<open>AttributeError\<close>.
\<close>

theorem export_file_raises: "export_bundle 2 sample_db ''q'' = Inl AttributeError"
  by (simp add: export_bundle_def collect_subtree_def export_entry_def ebind_def sample_db_def
      Node_def numeral_2_eq_2 type_str_def)

text \<open>
  Second, the entry of a shortcut has no \<^verbatim>\<open>target_id\<close>. In \<open>favored_db\<close> the Favorites
  root \<open>v\<close> lists the shortcut \<open>s\<close> with the target \<open>f\<close>; the bundle of \<open>v\<close> holds for \<open>s\<close>
  the content of a blank file and no target.
\<close>

theorem export_drops_target_id:
  "map_of (nodes favored_db) ''v'' = Some ((Node ''v'' Folder ''Favorites'')\<lparr>children := [''s'']\<rparr>)
   \<and> map_of (nodes favored_db) ''s'' = Some ((Node ''s'' Shortcut ''Note'')\<lparr>target_id := Some ''f''\<rparr>)
   \<and> export_bundle 2 favored_db ''v'' =
     Inr (JObj [(''bundle_root_id'', JStr ''v''),
                (''nodes'', JObj
                  [(''v'', JObj [(''id'', JStr ''v''), (''type'', JStr ''folder''),
                                 (''name'', JStr ''Favorites''),
                                 (''children'', JArr [JStr ''s'']), (''content'', JNull)]),
                   (''s'', JObj [(''id'', JStr ''s''), (''type'', JStr ''shortcut''),
                                 (''name'', JStr ''Note''), (''children'', JArr []),
                                 (''content'',
                                    JObj [(''read_rich'', blank_rich_doc),
                                          (''copy_blocks'', JArr [blank_rich_doc])])])])])"
  by (simp add: export_bundle_def collect_subtree_def export_entry_def ebind_def favored_db_def
      Node_def numeral_2_eq_2 type_str_def)

text \<open>
  What \<^verbatim>\<open>export_bundle\<close> does on the subtrees it can export, those whose nodes other than
  folders have no content, in a store without a cycle of folders: it returns whenever the
  recursion limit is high enough, and the keys of \<^verbatim>\<open>nodes\<close> are exactly the root and
  those of its descendants through the children of folders that are present in the store,
  the root first. So the part of the claim about the set of exported nodes is what the
  walk computes.
\<close>

lemma export_bundle_subtree:
  assumes ac: "acyclic (child_rel (nodes d))"
    and root: "map_of (nodes d) root = Some n0"
    and ex: "\<forall>x n. x \<in> below (nodes d) root \<and> map_of (nodes d) x = Some n \<longrightarrow> exportable n"
  shows "(\<exists>N. \<forall>fuel \<ge> N. \<exists>b. export_bundle fuel d root = Inr b)
       \<and> (\<forall>fuel b. export_bundle fuel d root = Inr b \<longrightarrow>
            (\<exists>entries. b = JObj [(''bundle_root_id'', JStr root), (''nodes'', JObj entries)]
               \<and> fst ` set entries = {x \<in> below (nodes d) root. map_of (nodes d) x \<noteq> None}
               \<and> (\<exists>zs. map fst entries = root # zs)
               \<and> (\<forall>x n. x \<in> below (nodes d) root \<and> map_of (nodes d) x = Some n \<longrightarrow>
                     (\<exists>e. map_of entries x = Some e \<and> exported_as n e))))"
proof -
  let ?ns = "nodes d"
  let ?S = "{x \<in> below ?ns root. map_of ?ns x \<noteq> None}"
  have post: "\<exists>entries. b = JObj [(''bundle_root_id'', JStr root), (''nodes'', JObj entries)]
               \<and> fst ` set entries = ?S
               \<and> (\<exists>zs. map fst entries = root # zs)
               \<and> (\<forall>x n. x \<in> below ?ns root \<and> map_of ?ns x = Some n \<longrightarrow>
                     (\<exists>e. map_of entries x = Some e \<and> exported_as n e))"
    if "export_bundle fuel d root = Inr b" for fuel b
  proof -
    from export_bundle_unfold [OF that] obtain ids entries where w: "walk fuel ?ns root [] = Some ids"
      and en: "export_nodes ids ?ns [] = Inr entries"
      and b: "b = JObj [(''bundle_root_id'', JStr root), (''nodes'', JObj entries)]" by blast
    from walk_spec [OF w] have ids: "set ids = ?S" by simp
    from walk_root_first [OF w root] obtain ys where ys: "ids = root # ys" by blast
    from en root have "ebind (export_entry n0)
        (\<lambda>e. export_nodes ys ?ns (AList.update root e [])) = Inr entries" by (simp add: ys)
    then obtain e0 where e0: "export_entry n0 = Inr e0"
      and r0: "export_nodes ys ?ns [(root, e0)] = Inr entries"
      by (cases "export_entry n0") (simp_all add: ebind_def)
    from export_nodes_spec [OF r0, THEN conjunct2, THEN conjunct1]
    have first: "\<exists>zs. map fst entries = root # zs" by simp
    from export_nodes_spec [OF en, THEN conjunct1]
    have keys: "fst ` set entries = ?S" by (simp add: ids)
    have each: "\<forall>x n. x \<in> below ?ns root \<and> map_of ?ns x = Some n \<longrightarrow>
                     (\<exists>e. map_of entries x = Some e \<and> exported_as n e)"
    proof (intro allI impI, elim conjE)
      fix x n assume x: "x \<in> below ?ns root" "map_of ?ns x = Some n"
      with ids have "x \<in> set ids \<and> map_of ?ns x = Some n" by simp
      then show "\<exists>e. map_of entries x = Some e \<and> exported_as n e"
        by (rule export_nodes_spec [OF en, THEN conjunct2, THEN conjunct2, THEN conjunct2,
              THEN spec, THEN spec, THEN mp])
    qed
    show ?thesis
      apply (rule exI [of _ entries])
      apply (intro conjI)
         apply (rule b)
        apply (rule keys)
       apply (rule first)
      apply (rule each)
      done
  qed
  from walk_total [OF ac] obtain N where N: "\<And>fuel out. fuel \<ge> N \<Longrightarrow> walk fuel ?ns root out \<noteq> None"
    by blast
  have "\<exists>b. export_bundle fuel d root = Inr b" if "fuel \<ge> N" for fuel
  proof -
    from N [OF that] obtain ids where w: "walk fuel ?ns root [] = Some ids" by blast
    from walk_spec [OF w] have ids: "set ids = ?S" by simp
    have "\<exists>r. export_nodes ids ?ns [] = Inr r"
    proof (rule export_nodes_ok)
      fix i assume "i \<in> set ids"
      with ids have "i \<in> below ?ns root" "map_of ?ns i \<noteq> None" by simp_all
      with ex show "\<exists>n. map_of ?ns i = Some n \<and> exportable n" by blast
    qed
    then obtain r where "export_nodes ids ?ns [] = Inr r" by blast
    with w show ?thesis by (simp add: export_bundle_def collect_subtree_def ebind_def)
  qed
  then have "term": "\<exists>N. \<forall>fuel \<ge> N. \<exists>b. export_bundle fuel d root = Inr b" by blast
  show ?thesis
    apply (rule conjI)
     apply (rule "term")
    apply (intro allI impI)
    apply (erule post)
    done
qed

lemma export_bundle_subtree_example:
  "acyclic (child_rel (nodes favored_db))
   \<and> export_bundle 2 favored_db ''v'' =
     Inr (JObj [(''bundle_root_id'', JStr ''v''),
                (''nodes'', JObj
                  [(''v'', JObj [(''id'', JStr ''v''), (''type'', JStr ''folder''),
                                 (''name'', JStr ''Favorites''),
                                 (''children'', JArr [JStr ''s'']), (''content'', JNull)]),
                   (''s'', JObj [(''id'', JStr ''s''), (''type'', JStr ''shortcut''),
                                 (''name'', JStr ''Note''), (''children'', JArr []),
                                 (''content'',
                                    JObj [(''read_rich'', blank_rich_doc),
                                          (''copy_blocks'', JArr [blank_rich_doc])])])])])
   \<and> {''v'', ''s''} = {x \<in> below (nodes favored_db) ''v''. map_of (nodes favored_db) x \<noteq> None}"
proof -
  have v: "map_of (nodes favored_db) ''v'' = Some ((Node ''v'' Folder ''Favorites'')\<lparr>children := [''s'']\<rparr>)"
    by (simp add: favored_db_def)
  have ex: "\<forall>x n. x \<in> below (nodes favored_db) ''v'' \<and> map_of (nodes favored_db) x = Some n \<longrightarrow>
              exportable n"
    unfolding below_favorites by (auto simp: favored_db_def exportable_def Node_def)
  from export_bundle_subtree [OF favored_db_acyclic v ex, THEN conjunct2, THEN spec, THEN spec,
      THEN mp, OF export_favorites]
  have "{''v'', ''s''} = {x \<in> below (nodes favored_db) ''v''. map_of (nodes favored_db) x \<noteq> None}"
    by auto
  with favored_db_acyclic export_favorites show ?thesis by blast
qed

section \<open>Facts about the import into a store\<close>

lemma kept_refl: "kept a a"
  by (simp add: kept_def)

lemma kept_trans:
  assumes "kept a b" and "kept b c"
  shows "kept a c"
  unfolding kept_def
proof (intro allI impI)
  fix k n assume "map_of a k = Some n"
  with assms(1) obtain n1 cs1 where 1: "map_of b k = Some n1" "nid n1 = nid n" "ntype n1 = ntype n"
    "name n1 = name n" "content n1 = content n" "target_id n1 = target_id n"
    "children n1 = children n @ cs1" unfolding kept_def by blast
  from assms(2) 1(1) obtain n2 cs2 where 2: "map_of c k = Some n2" "nid n2 = nid n1"
    "ntype n2 = ntype n1" "name n2 = name n1" "content n2 = content n1" "target_id n2 = target_id n1"
    "children n2 = children n1 @ cs2" unfolding kept_def by blast
  have "children n2 = children n @ (cs1 @ cs2)" by (simp add: 1 2)
  with 1 2 show "\<exists>n'. map_of c k = Some n' \<and> nid n' = nid n \<and> ntype n' = ntype n \<and> name n' = name n
      \<and> content n' = content n \<and> target_id n' = target_id n \<and> (\<exists>cs. children n' = children n @ cs)"
    by auto
qed

lemma kept_update_new:
  "kept a ns \<Longrightarrow> map_of a k = None \<Longrightarrow> kept a (AList.update k x ns)"
  by (auto simp: kept_def update_conv')

lemma kept_update_children:
  "map_of ns k = Some n \<Longrightarrow> kept ns (AList.update k (n\<lparr>children := children n @ cs\<rparr>) ns)"
  by (auto simp: kept_def update_conv')

lemma kept_append_child: "kept ns (append_child k c ns)"
  by (auto simp: append_child_def kept_refl kept_update_children split: option.splits)

lemma merge_children_prefix: "\<exists>cs. merge_children mine incoming = mine @ cs"
  unfolding merge_children_def
proof (induction incoming arbitrary: mine)
  case Nil
  then show ?case by simp
next
  case (Cons c incoming)
  show ?case
  proof (cases "c \<in> set mine")
    case True
    with Cons.IH [of mine] show ?thesis by simp
  next
    case False
    from Cons.IH [of "mine @ [c]"] obtain cs where
      "fold (\<lambda>cid acc. if cid \<in> set acc then acc else acc @ [cid]) incoming (mine @ [c]) = (mine @ [c]) @ cs"
      by blast
    with False show ?thesis by simp
  qed
qed

lemma kept_attach_quickcopy: "kept ns (attach_quickcopy m incoming a ns)"
  by (auto simp: attach_quickcopy_def kept_refl kept_append_child split: option.splits)

lemma kept_update_merge:
  assumes "map_of ns f = Some my"
  shows "kept ns (AList.update f (my\<lparr>children := merge_children (children my) inc\<rparr>) ns)"
proof -
  obtain cs where "merge_children (children my) inc = children my @ cs"
    using merge_children_prefix by blast
  with kept_update_children [OF assms, of cs] show ?thesis by simp
qed

lemma kept_merge_favorites:
  "merge_favorites m incoming f ns = Inr ns' \<Longrightarrow> kept ns ns'"
  by (auto simp: merge_favorites_def kept_refl kept_update_merge split: option.splits if_splits)

lemma kept_insert_copies:
  "insert_copies items m ns = Inr ns' \<Longrightarrow> kept a ns \<Longrightarrow>
   (\<And>old new. map_of m old = Some new \<Longrightarrow> map_of a new = None) \<Longrightarrow> kept a ns'"
proof (induction items m ns rule: insert_copies.induct)
  case (1 m ns)
  then show ?case by simp
next
  case (2 old_id n rest m ns)
  from "2.prems"(1) obtain new where new: "map_of m old_id = Some new"
    by (auto split: option.splits)
  from "2.prems"(3) [OF new] have "map_of a new = None" .
  with "2.prems"(2) have k: "kept a (AList.update new x ns)" for x by (rule kept_update_new)
  from "2.prems"(1) new show ?case
    by (simp only: insert_copies.simps option.case) (rule "2.IH" [OF new _ k "2.prems"(3)])
qed

lemma kept_relink_children:
  "relink_children items m ns = Inr ns' \<Longrightarrow> kept a ns \<Longrightarrow>
   (\<And>old new. map_of m old = Some new \<Longrightarrow> map_of a new = None) \<Longrightarrow> kept a ns'"
proof (induction items m ns rule: relink_children.induct)
  case (1 m ns)
  then show ?case by simp
next
  case (2 old_id n rest m ns)
  show ?case
  proof (cases "ntype n \<noteq> Folder")
    case True
    with "2.prems"(1) have "relink_children rest m ns = Inr ns'" by simp
    from "2.IH"(1) [OF True this "2.prems"(2,3)] show ?thesis .
  next
    case False
    with "2.prems"(1) obtain new tgt where new: "map_of m old_id = Some new"
      and tgt: "map_of ns new = Some tgt"
      and r: "relink_children rest m (AList.update new (tgt\<lparr>children := remap m (children n)\<rparr>) ns) = Inr ns'"
      by (auto split: option.splits)
    from "2.prems"(3) [OF new] have "map_of a new = None" .
    with "2.prems"(2) have k: "kept a (AList.update new x ns)" for x by (rule kept_update_new)
    from "2.IH"(2) [OF False new tgt r k "2.prems"(3)] show ?thesis .
  qed
qed

lemma later_refl: "later s s"
  unfolding later_def by (rule exI [of _ 0]) simp

lemma later_Suc: "later s (\<lambda>n. s (Suc n))"
  unfolding later_def by (rule exI [of _ 1]) simp

lemma later_trans:
  assumes "later s s1" and "later s1 s2"
  shows "later s s2"
proof -
  from assms obtain i j where "s1 = (\<lambda>n. s (n + i))" "s2 = (\<lambda>n. s1 (n + j))"
    unfolding later_def by blast
  then have "s2 = (\<lambda>n. s (n + (j + i)))" by (simp add: add.assoc)
  then show ?thesis unfolding later_def by blast
qed

lemma later_fresh:
  assumes "later s s'" and "fresh s ns"
  shows "fresh s' ns"
proof -
  from assms(1) obtain j where j: "s' = (\<lambda>n. s (n + j))" unfolding later_def by blast
  from assms(2) have "inj s" "\<And>n. s n \<notin> fst ` set ns" by (simp_all add: fresh_def)
  then have "inj (\<lambda>n. s (n + j))" "\<And>n. s (n + j) \<notin> fst ` set ns"
    by (force simp: inj_def)+
  then show ?thesis by (simp add: fresh_def j)
qed

lemma later_issued: "later s s' \<Longrightarrow> \<exists>m. s' n = s m"
  by (auto simp: later_def)

lemma build_id_map_spec:
  "build_id_map keys ns m s = (m', s') \<Longrightarrow>
     later s s'
     \<and> (\<forall>old. old \<notin> set keys \<longrightarrow> map_of m' old = map_of m old)
     \<and> (\<forall>old. old \<in> set keys \<longrightarrow>
           (if map_of ns old \<noteq> None then \<exists>j. map_of m' old = Some (s j)
            else map_of m' old = Some old))"
proof (induction keys arbitrary: m s)
  case Nil
  then show ?case by (simp add: later_refl)
next
  case (Cons k rest)
  show ?case
  proof (cases "map_of ns k \<noteq> None")
    case True
    let ?s1 = "\<lambda>n. s (Suc n)"
    from Cons.prems True have r: "build_id_map rest ns (AList.update k (s 0) m) ?s1 = (m', s')"
      by (simp add: new_id_def)
    note ih = Cons.IH [OF r]
    from ih have 1: "later s s'" by (blast intro: later_trans later_Suc)
    from ih have 2: "\<forall>old. old \<notin> set (k # rest) \<longrightarrow> map_of m' old = map_of m old"
      by (simp add: update_conv')
    have 3: "if map_of ns old \<noteq> None then \<exists>j. map_of m' old = Some (s j)
             else map_of m' old = Some old" if "old \<in> set (k # rest)" for old
    proof (cases "old \<in> set rest")
      case True
      with ih have "if map_of ns old \<noteq> None then \<exists>j. map_of m' old = Some (?s1 j)
             else map_of m' old = Some old" by blast
      then show ?thesis by (auto split: if_splits)
    next
      case False
      with that have o: "old = k" by simp
      from ih False have "map_of m' old = map_of (AList.update k (s 0) m) old" by blast
      then have "map_of m' old = Some (s 0)" by (simp add: o update_conv')
      with True o show ?thesis by auto
    qed
    from 1 2 3 show ?thesis by blast
  next
    case False
    from Cons.prems False have r: "build_id_map rest ns (AList.update k k m) s = (m', s')"
      by simp
    note ih = Cons.IH [OF r]
    from ih have 1: "later s s'" by blast
    from ih have 2: "\<forall>old. old \<notin> set (k # rest) \<longrightarrow> map_of m' old = map_of m old"
      by (simp add: update_conv')
    have 3: "if map_of ns old \<noteq> None then \<exists>j. map_of m' old = Some (s j)
             else map_of m' old = Some old" if "old \<in> set (k # rest)" for old
    proof (cases "old \<in> set rest")
      case True
      with ih show ?thesis by blast
    next
      case False
      with that have o: "old = k" by simp
      from ih False have "map_of m' old = map_of (AList.update k k m) old" by blast
      then have "map_of m' old = Some k" by (simp add: o update_conv')
      with \<open>\<not> map_of ns k \<noteq> None\<close> o show ?thesis by auto
    qed
    from 1 2 3 show ?thesis by blast
  qed
qed

lemma build_id_map_values:
  assumes b: "build_id_map keys ns [] s = (m, s')" and f: "fresh s ns"
    and l: "map_of m old = Some new"
  shows "map_of ns new = None"
proof -
  note sp = build_id_map_spec [OF b]
  have "old \<in> set keys"
  proof (rule ccontr)
    assume "old \<notin> set keys"
    with sp have "map_of m old = map_of [] old" by blast
    with l show False by simp
  qed
  with sp have c: "if map_of ns old \<noteq> None then \<exists>j. map_of m old = Some (s j)
            else map_of m old = Some old" by blast
  show ?thesis
  proof (cases "map_of ns old \<noteq> None")
    case True
    with c l obtain j where "new = s j" by auto
    with f show ?thesis by (simp add: fresh_not_key)
  next
    case False
    with c l show ?thesis by auto
  qed
qed

lemma keys_insert_copies:
  "insert_copies items m ns = Inr ns' \<Longrightarrow>
   fst ` set ns \<subseteq> fst ` set ns'
   \<and> (\<forall>old \<in> fst ` set items. \<exists>new. map_of m old = Some new \<and> new \<in> fst ` set ns')"
proof (induction items m ns rule: insert_copies.induct)
  case (1 m ns)
  then show ?case by simp
next
  case (2 old_id n rest m ns)
  from "2.prems" obtain new where new: "map_of m old_id = Some new"
    by (auto split: option.splits)
  let ?ns1 = "AList.update new
               \<lparr>nid = new, ntype = ntype n, name = name n, children = [], content = content n,
                target_id = (if ntype n = Shortcut
                             then (case target_id n of None \<Rightarrow> None | Some t \<Rightarrow> map_of m t)
                             else target_id n)\<rparr> ns"
  from "2.prems" new have r: "insert_copies rest m ?ns1 = Inr ns'" by simp
  note ih = "2.IH" [OF new r]
  have k: "fst ` set ?ns1 = insert new (fst ` set ns)" by (rule keys_update)
  from ih k have 1: "fst ` set ns \<subseteq> fst ` set ns'" and n: "new \<in> fst ` set ns'" by auto
  from ih have "\<forall>old \<in> fst ` set rest. \<exists>new. map_of m old = Some new \<and> new \<in> fst ` set ns'"
    by (rule conjunct2)
  with new n have "\<forall>old \<in> fst ` set ((old_id, n) # rest). \<exists>new. map_of m old = Some new \<and> new \<in> fst ` set ns'"
    by simp
  with 1 show ?case by blast
qed

lemma keys_relink_children:
  "relink_children items m ns = Inr ns' \<Longrightarrow> fst ` set ns \<subseteq> fst ` set ns'"
proof (induction items m ns rule: relink_children.induct)
  case (1 m ns)
  then show ?case by simp
next
  case (2 old_id n rest m ns)
  show ?case
  proof (cases "ntype n \<noteq> Folder")
    case True
    with "2.prems" have "relink_children rest m ns = Inr ns'" by simp
    from "2.IH"(1) [OF True this] show ?thesis .
  next
    case False
    with "2.prems" obtain new tgt where new: "map_of m old_id = Some new"
      and tgt: "map_of ns new = Some tgt"
      and r: "relink_children rest m (AList.update new (tgt\<lparr>children := remap m (children n)\<rparr>) ns) = Inr ns'"
      by (auto split: option.splits)
    from "2.IH"(2) [OF False new tgt r] show ?thesis by (auto simp: keys_update)
  qed
qed

lemma keys_append_child: "fst ` set ns \<subseteq> fst ` set (append_child k c ns)"
  by (auto simp: append_child_def keys_update split: option.splits)

lemma keys_attach_quickcopy: "fst ` set ns \<subseteq> fst ` set (attach_quickcopy m incoming a ns)"
  using keys_append_child by (auto simp: attach_quickcopy_def split: option.splits)

lemma keys_merge_favorites:
  assumes "merge_favorites m incoming f ns = Inr ns'"
  shows "fst ` set ns \<subseteq> fst ` set ns'"
proof (cases "ns' = ns")
  case True
  then show ?thesis by simp
next
  case False
  with assms have "\<exists>x. ns' = AList.update f x ns"
    by (auto simp: merge_favorites_def split: option.splits if_splits)
  then obtain x where "ns' = AList.update f x ns" by blast
  then show ?thesis by (auto simp: keys_update)
qed

lemma merge_incoming_unfold:
  assumes "merge_incoming v incoming s = Inr (v', s')"
  shows "\<exists>m ns1 ns2 a ns4.
           build_id_map (map fst (nodes incoming)) (nodes (view_db v)) [] s = (m, s')
           \<and> insert_copies (nodes incoming) m (nodes (view_db v)) = Inr ns1
           \<and> relink_children (nodes incoming) m ns1 = Inr ns2
           \<and> merge_favorites m incoming (favorites_root_id (view_db v))
                (attach_quickcopy m incoming a ns2) = Inr ns4
           \<and> nodes (view_db v') = ns4"
proof -
  obtain m s1 where b: "build_id_map (map fst (nodes incoming)) (nodes (view_db v)) [] s = (m, s1)"
    by (cases "build_id_map (map fst (nodes incoming)) (nodes (view_db v)) [] s") blast
  note a = assms [unfolded merge_incoming_def Let_def b prod.case]
  from a obtain ns1 where 1: "insert_copies (nodes incoming) m (nodes (view_db v)) = Inr ns1"
    by (cases "insert_copies (nodes incoming) m (nodes (view_db v))") (simp_all add: ebind_def)
  note a1 = a [unfolded 1 ebind_def sum.case]
  from a1 obtain ns2 where 2: "relink_children (nodes incoming) m ns1 = Inr ns2"
    by (cases "relink_children (nodes incoming) m ns1") simp_all
  note a2 = a1 [unfolded 2 sum.case]
  from a2 obtain k where 3: "attach_key v ns2 = Inr k"
    by (cases "attach_key v ns2") simp_all
  note a3 = a2 [unfolded 3 sum.case]
  from a3 obtain ns4 where 4: "merge_favorites m incoming (favorites_root_id (view_db v))
                (attach_quickcopy m incoming k ns2) = Inr ns4"
    by (cases "merge_favorites m incoming (favorites_root_id (view_db v))
                (attach_quickcopy m incoming k ns2)") simp_all
  from a3 have "v' = v\<lparr>view_db := (view_db v)\<lparr>nodes := ns4\<rparr>\<rparr>" "s' = s1" by (simp_all add: 4)
  with b 1 2 4 show ?thesis by auto
qed

lemma merge_incoming_spec:
  assumes f: "fresh s (nodes (view_db v))" and r: "merge_incoming v incoming s = Inr (v', s')"
  shows "kept (nodes (view_db v)) (nodes (view_db v'))
       \<and> (\<forall>old \<in> fst ` set (nodes incoming).
             \<exists>new. map_of (nodes (view_db v')) new \<noteq> None \<and> map_of (nodes (view_db v)) new = None
               \<and> (if map_of (nodes (view_db v)) old \<noteq> None then \<exists>j. new = s j else new = old))"
proof -
  let ?ns = "nodes (view_db v)"
  from merge_incoming_unfold [OF r] obtain m ns1 ns2 a ns4 where
    b: "build_id_map (map fst (nodes incoming)) ?ns [] s = (m, s')"
    and 1: "insert_copies (nodes incoming) m ?ns = Inr ns1"
    and 2: "relink_children (nodes incoming) m ns1 = Inr ns2"
    and 4: "merge_favorites m incoming (favorites_root_id (view_db v))
              (attach_quickcopy m incoming a ns2) = Inr ns4"
    and v': "nodes (view_db v') = ns4" by blast
  have vals: "map_of ?ns new = None" if "map_of m old = Some new" for old new
    using b f that by (rule build_id_map_values)
  have "kept ?ns ns1" by (rule kept_insert_copies [OF 1 kept_refl vals])
  then have "kept ?ns ns2" by (rule kept_relink_children [OF 2 _ vals])
  then have "kept ?ns (attach_quickcopy m incoming a ns2)"
    by (rule kept_trans [OF _ kept_attach_quickcopy])
  then have k: "kept ?ns ns4" by (rule kept_trans [OF _ kept_merge_favorites [OF 4]])
  have sub: "fst ` set ns1 \<subseteq> fst ` set ns4"
    using keys_relink_children [OF 2] keys_attach_quickcopy [of ns2 m incoming a]
      keys_merge_favorites [OF 4] by blast
  have "\<exists>new. map_of ns4 new \<noteq> None \<and> map_of ?ns new = None
               \<and> (if map_of ?ns old \<noteq> None then \<exists>j. new = s j else new = old)"
    if "old \<in> fst ` set (nodes incoming)" for old
  proof -
    from keys_insert_copies [OF 1] that obtain new where new: "map_of m old = Some new"
      "new \<in> fst ` set ns1" by blast
    from new(2) sub have "new \<in> fst ` set ns4" by blast
    then have p: "map_of ns4 new \<noteq> None" by (simp add: map_of_eq_None_iff)
    from that have "old \<in> set (map fst (nodes incoming))" by simp
    with build_id_map_spec [OF b]
    have "if map_of ?ns old \<noteq> None then \<exists>j. map_of m old = Some (s j) else map_of m old = Some old"
      by blast
    with new(1) have "if map_of ?ns old \<noteq> None then \<exists>j. new = s j else new = old"
      by (auto split: if_splits)
    with p vals [OF new(1)] show ?thesis by blast
  qed
  with k show ?thesis by (simp add: v')
qed

lemma later_ensure_favorite_shortcut:
  "ensure_favorite_shortcut d f s = (d', s') \<Longrightarrow> later s s'"
  by (auto simp: ensure_favorite_shortcut_def new_id_def Let_def later_refl later_Suc
        split: option.splits if_splits)

lemma later_migrate_pinned:
  "migrate_pinned items d s = (d', s') \<Longrightarrow> later s s'"
proof (induction items d s rule: migrate_pinned.induct)
  case (1 db s)
  then show ?case by (simp add: later_refl)
next
  case (2 k raw rest db s)
  show ?case
  proof (cases "map_of raw ''pinned'' = Some (JBool True)")
    case True
    obtain d1 s1 where e: "ensure_favorite_shortcut db (entry_id k raw) s = (d1, s1)"
      by (cases "ensure_favorite_shortcut db (entry_id k raw) s") blast
    from "2.prems" True e have m: "migrate_pinned rest d1 s1 = (d', s')" by simp
    from "2.IH"(1) [OF True refl refl e [symmetric] m] later_ensure_favorite_shortcut [OF e]
    show ?thesis by (blast intro: later_trans)
  next
    case False
    with 2 show ?thesis by auto
  qed
qed auto

lemma later_blank_database: "blank_database s = (d, s') \<Longrightarrow> later s s'"
proof -
  assume "blank_database s = (d, s')"
  then have "s' = (\<lambda>n. s (n + 2))" by (auto simp: blank_database_def new_id_def Let_def)
  then show ?thesis unfolding later_def by blast
qed

lemma later_db_from_dict:
  assumes "db_from_dict raw s = Inr (d, s')"
  shows "later s s'"
proof (cases raw)
  case (JObj dat)
  let ?items = "items_of (case map_of dat ''nodes'' of None \<Rightarrow> JObj [] | Some v \<Rightarrow> v)"
  note a = assms [unfolded JObj db_from_dict_def json.case]
  from a obtain items where i: "?items = Inr items"
    by (cases ?items) (simp_all add: ebind_def)
  note a1 = a [unfolded i ebind_def sum.case]
  from a1 obtain ns where p: "parse_nodes items [] = Inr ns"
    by (cases "parse_nodes items []") simp_all
  note a2 = a1 [unfolded p sum.case]
  from a2 obtain qc where q: "valid_key (map_of dat ''quickcopy_root_id'') ns = Inr qc"
    by (cases "valid_key (map_of dat ''quickcopy_root_id'') ns") simp_all
  note a3 = a2 [unfolded q sum.case]
  show ?thesis
  proof (cases qc)
    case None
    obtain db s1 where b: "blank_database s = (db, s1)" by (cases "blank_database s") blast
    from a3 None b have "s' = s1"
      by (auto simp: Let_def split: sum.splits option.splits if_splits)
    with later_blank_database [OF b] show ?thesis by simp
  next
    case (Some qc_root)
    note a4 = a3 [unfolded Some option.case]
    from a4 obtain fv where f: "valid_key (map_of dat ''favorites_root_id'') ns = Inr fv"
      by (cases "valid_key (map_of dat ''favorites_root_id'') ns") simp_all
    note a5 = a4 [unfolded f sum.case]
    show ?thesis
    proof (cases fv)
      case None
      from a5 None have "\<exists>db. migrate_pinned items db (\<lambda>n. s (Suc n)) = (d, s')"
        by (auto simp: new_id_def Let_def)
      then show ?thesis by (blast intro: later_trans later_Suc later_migrate_pinned)
    next
      case (Some fav_root)
      with a5 have "\<exists>db. migrate_pinned items db s = (d, s')" by auto
      then show ?thesis by (blast intro: later_migrate_pinned)
    qed
  qed
qed (use assms in \<open>auto simp: db_from_dict_def later_blank_database\<close>)

lemma import_bundle_spec:
  assumes f: "fresh s (nodes (view_db v))" and r: "import_bundle v raw s = Inr (v', s')"
  shows "kept (nodes (view_db v)) (nodes (view_db v'))
       \<and> (v' = v \<or> (\<exists>incoming s1. db_from_dict raw s = Inr (incoming, s1)
             \<and> (\<forall>old \<in> fst ` set (nodes incoming).
                  \<exists>new. map_of (nodes (view_db v')) new \<noteq> None
                    \<and> map_of (nodes (view_db v)) new = None
                    \<and> (if map_of (nodes (view_db v)) old \<noteq> None then \<exists>j. new = s j
                        else new = old))))"
proof (cases "db_from_dict raw s")
  case (Inl e)
  with r have "v' = v" by (cases e) (simp_all add: import_bundle_def)
  then show ?thesis by (simp add: kept_refl)
next
  case (Inr p)
  obtain incoming s1 where p: "p = (incoming, s1)" by (cases p) blast
  from Inr p have d: "db_from_dict raw s = Inr (incoming, s1)" by simp
  with r have m: "merge_incoming v incoming s1 = Inr (v', s')" by (simp add: import_bundle_def)
  from later_db_from_dict [OF d] have l: "later s s1" .
  from later_fresh [OF l f] have f1: "fresh s1 (nodes (view_db v))" .
  note sp = merge_incoming_spec [OF f1 m]
  from sp have k: "kept (nodes (view_db v)) (nodes (view_db v'))" by (rule conjunct1)
  have each: "\<forall>old \<in> fst ` set (nodes incoming).
          \<exists>new. map_of (nodes (view_db v')) new \<noteq> None \<and> map_of (nodes (view_db v)) new = None
          \<and> (if map_of (nodes (view_db v)) old \<noteq> None then \<exists>j. new = s j else new = old)"
  proof
    fix old assume "old \<in> fst ` set (nodes incoming)"
    with sp [THEN conjunct2] obtain new where new: "map_of (nodes (view_db v')) new \<noteq> None"
      "map_of (nodes (view_db v)) new = None"
      "if map_of (nodes (view_db v)) old \<noteq> None then \<exists>j. new = s1 j else new = old" by blast
    have "if map_of (nodes (view_db v)) old \<noteq> None then \<exists>j. new = s j else new = old"
    proof (cases "map_of (nodes (view_db v)) old \<noteq> None")
      case True
      with new(3) obtain j where "new = s1 j" by auto
      with later_issued [OF l, of j] have "\<exists>j. new = s j" by simp
      with True show ?thesis by simp
    next
      case False
      with new(3) show ?thesis by simp
    qed
    with new(1,2) show "\<exists>new. map_of (nodes (view_db v')) new \<noteq> None
          \<and> map_of (nodes (view_db v)) new = None
          \<and> (if map_of (nodes (view_db v)) old \<noteq> None then \<exists>j. new = s j else new = old)"
      by blast
  qed
  show ?thesis
    apply (rule conjI)
     apply (rule k)
    apply (rule disjI2)
    apply (rule exI [of _ incoming])
    apply (rule exI [of _ s1])
    apply (rule conjI)
     apply (rule d)
    apply (rule each)
    done
qed

lemma fresh_id_map_spec:
  "fresh_id_map keys m s = (m', s') \<Longrightarrow>
     (\<forall>old. old \<notin> set keys \<longrightarrow> map_of m' old = map_of m old)
     \<and> (\<forall>old. old \<in> set keys \<longrightarrow> (\<exists>j. map_of m' old = Some (s j)))"
proof (induction keys arbitrary: m s)
  case Nil
  then show ?case by simp
next
  case (Cons k rest)
  let ?s1 = "\<lambda>n. s (Suc n)"
  from Cons.prems have r: "fresh_id_map rest (AList.update k (s 0) m) ?s1 = (m', s')"
    by (simp add: new_id_def)
  note ih = Cons.IH [OF r]
  from ih have 2: "\<forall>old. old \<notin> set (k # rest) \<longrightarrow> map_of m' old = map_of m old"
    by (simp add: update_conv')
  have 3: "\<exists>j. map_of m' old = Some (s j)" if "old \<in> set (k # rest)" for old
  proof (cases "old \<in> set rest")
    case True
    with ih obtain j where "map_of m' old = Some (?s1 j)" by blast
    then show ?thesis by blast
  next
    case False
    with that have o: "old = k" by simp
    from ih False have "map_of m' old = map_of (AList.update k (s 0) m) old" by blast
    then have "map_of m' old = Some (s 0)" by (simp add: o update_conv')
    then show ?thesis by blast
  qed
  from 2 3 show ?case by blast
qed

lemma fresh_id_map_values:
  assumes b: "fresh_id_map keys [] s = (m, s')" and f: "fresh s ns"
    and l: "map_of m old = Some new"
  shows "map_of ns new = None"
proof -
  note sp = fresh_id_map_spec [OF b]
  have "old \<in> set keys"
  proof (rule ccontr)
    assume "old \<notin> set keys"
    with sp have "map_of m old = map_of [] old" by blast
    with l show False by simp
  qed
  with sp l obtain j where "new = s j" by fastforce
  with f show ?thesis by (simp add: fresh_not_key)
qed

lemma import_nodes_step:
  assumes "import_nodes ((old_id, JObj d) # rest) m ns = Inr ns'"
  shows "\<exists>new x. map_of m old_id = Some new \<and> import_nodes rest m (AList.update new x ns) = Inr ns'"
proof -
  from assms obtain new where new: "map_of m old_id = Some new"
    by (cases "map_of m old_id") simp_all
  note a = assms [unfolded import_nodes.simps new option.case Let_def]
  from a obtain nm where nm: "str_field d ''name'' ''Imported'' = Inr nm"
    by (cases "str_field d ''name'' ''Imported''") (simp_all add: ebind_def)
  note a1 = a [unfolded nm ebind_def sum.case]
  from a1 show ?thesis
    by (auto simp: new split: sum.splits if_splits)
qed

lemma import_nodes_entry:
  assumes "import_nodes ((old_id, j) # rest) m ns = Inr ns'"
  shows "\<exists>new x. map_of m old_id = Some new \<and> import_nodes rest m (AList.update new x ns) = Inr ns'"
proof (cases j)
  case (JObj d)
  with assms show ?thesis by (simp only: import_nodes_step)
qed (use assms in simp_all)

lemma import_nodes_spec:
  "import_nodes raw m ns = Inr ns' \<Longrightarrow> kept a ns \<Longrightarrow>
   (\<And>old new. map_of m old = Some new \<Longrightarrow> map_of a new = None) \<Longrightarrow>
   kept a ns' \<and> fst ` set ns \<subseteq> fst ` set ns'
   \<and> (\<forall>old \<in> fst ` set raw. \<exists>new. map_of m old = Some new \<and> new \<in> fst ` set ns')"
proof (induction raw arbitrary: ns)
  case Nil
  then show ?case by simp
next
  case (Cons e rest)
  obtain old_id j where e: "e = (old_id, j)" by (cases e) blast
  from import_nodes_entry [OF Cons.prems(1) [unfolded e]] obtain new x
    where new: "map_of m old_id = Some new"
    and r: "import_nodes rest m (AList.update new x ns) = Inr ns'" by blast
  from Cons.prems(3) [OF new] have "map_of a new = None" .
  with Cons.prems(2) have k: "kept a (AList.update new x ns)" by (rule kept_update_new)
  note ih = Cons.IH [OF r k Cons.prems(3)]
  have ku: "fst ` set (AList.update new x ns) = insert new (fst ` set ns)" by (rule keys_update)
  from ih have 1: "kept a ns'" by (rule conjunct1)
  from ih ku have 2: "fst ` set ns \<subseteq> fst ` set ns'" and n: "new \<in> fst ` set ns'" by auto
  from ih have "\<forall>old \<in> fst ` set rest. \<exists>new. map_of m old = Some new \<and> new \<in> fst ` set ns'"
    by simp
  with new n have 3: "\<forall>old \<in> fst ` set (e # rest). \<exists>new. map_of m old = Some new \<and> new \<in> fst ` set ns'"
    by (simp add: e)
  from 1 2 3 show ?case by blast
qed

lemma import_bundle_into_folder_unfold:
  assumes "import_bundle_into_folder d bundle t s = Inr ((ok, msg), d', s')"
  shows "(\<not> ok \<and> d' = d)
       \<or> (ok \<and> (\<exists>b raw m ns1 new. bundle = JObj b \<and> map_of b ''nodes'' = Some (JObj raw)
                 \<and> fresh_id_map (map fst raw) [] s = (m, s')
                 \<and> import_nodes raw m (nodes d) = Inr ns1
                 \<and> nodes d' = append_child t new ns1))"
  using assms
  by (auto simp: import_bundle_into_folder_def Let_def ebind_def
        split: option.splits if_splits json.splits prod.splits sum.splits)

lemma import_bundle_into_folder_spec:
  assumes f: "fresh s (nodes d)"
    and r: "import_bundle_into_folder d bundle t s = Inr ((ok, msg), d', s')"
  shows "kept (nodes d) (nodes d')
       \<and> (ok \<longrightarrow> (\<exists>b raw. bundle = JObj b \<and> map_of b ''nodes'' = Some (JObj raw)
               \<and> (\<forall>old \<in> fst ` set raw.
                    \<exists>j. map_of (fst (fresh_id_map (map fst raw) [] s)) old = Some (s j)
                      \<and> map_of (nodes d') (s j) \<noteq> None \<and> map_of (nodes d) (s j) = None)))"
proof (cases ok)
  case False
  with import_bundle_into_folder_unfold [OF r] have "d' = d" by simp
  with False show ?thesis by (simp add: kept_refl)
next
  case True
  with import_bundle_into_folder_unfold [OF r]
  have "\<exists>b raw m ns1 new. bundle = JObj b \<and> map_of b ''nodes'' = Some (JObj raw)
                 \<and> fresh_id_map (map fst raw) [] s = (m, s')
                 \<and> import_nodes raw m (nodes d) = Inr ns1
                 \<and> nodes d' = append_child t new ns1" by simp
  then obtain b raw m ns1 rt where
    b: "bundle = JObj b" "map_of b ''nodes'' = Some (JObj raw)"
    and m: "fresh_id_map (map fst raw) [] s = (m, s')"
    and i: "import_nodes raw m (nodes d) = Inr ns1"
    and d': "nodes d' = append_child t rt ns1" by blast
  have vals: "map_of (nodes d) new = None" if "map_of m old = Some new" for old new
    using m f that by (rule fresh_id_map_values)
  have sp: "kept (nodes d) ns1 \<and> fst ` set (nodes d) \<subseteq> fst ` set ns1
      \<and> (\<forall>old \<in> fst ` set raw. \<exists>new. map_of m old = Some new \<and> new \<in> fst ` set ns1)"
    by (rule import_nodes_spec [OF i kept_refl]) (rule vals)
  from sp have "kept (nodes d) ns1" by (rule conjunct1)
  then have k: "kept (nodes d) (nodes d')"
    unfolding d' by (rule kept_trans [OF _ kept_append_child])
  have each: "\<forall>old \<in> fst ` set raw.
      \<exists>j. map_of (fst (fresh_id_map (map fst raw) [] s)) old = Some (s j)
        \<and> map_of (nodes d') (s j) \<noteq> None \<and> map_of (nodes d) (s j) = None"
  proof
    fix old assume o: "old \<in> fst ` set raw"
    with sp [THEN conjunct2, THEN conjunct2] obtain new where
      new: "map_of m old = Some new" "new \<in> fst ` set ns1" by blast
    from o have "old \<in> set (map fst raw)" by simp
    with fresh_id_map_spec [OF m, THEN conjunct2] obtain j where j: "map_of m old = Some (s j)"
      by blast
    with new have n: "new = s j" by simp
    from new(2) have "new \<in> fst ` set (append_child t rt ns1)"
      by (rule subsetD [OF keys_append_child])
    then have "new \<in> fst ` set (nodes d')" by (simp only: d')
    then have 1: "map_of (nodes d') (s j) \<noteq> None" by (simp add: n map_of_eq_None_iff)
    from f have 2: "map_of (nodes d) (s j) = None" by (rule fresh_not_key)
    from j have 3: "map_of (fst (fresh_id_map (map fst raw) [] s)) old = Some (s j)"
      by (simp add: m)
    from 1 2 3 show "\<exists>j. map_of (fst (fresh_id_map (map fst raw) [] s)) old = Some (s j)
        \<and> map_of (nodes d') (s j) \<noteq> None \<and> map_of (nodes d) (s j) = None"
      by blast
  qed
  show ?thesis
    apply (rule conjI)
     apply (rule k)
    apply (rule impI)
    apply (rule exI [of _ b])
    apply (rule exI [of _ raw])
    apply (intro conjI)
      apply (rule b(1))
     apply (rule b(2))
    apply (rule each)
    done
qed

lemmas eval_merge_incoming =
  import_bundle_def merge_incoming_def build_id_map.simps insert_copies.simps
  relink_children.simps remap_def List.map_filter_simps attach_key_def attach_quickcopy_def
  merge_favorites_def merge_children_def append_child_def ebind_def Let_def new_id_def
  Node_def uuids_def

lemma import_hello_into_sample:
  "map_sum id fst (import_bundle \<lparr>view_db = sample_db, current_folder_id = ''q''\<rparr>
      hello_document uuids) = Inr \<lparr>view_db = doubled_db, current_folder_id = ''q''\<rparr>"
  unfolding import_bundle_def hello_document_loaded
  by (simp add: eval_merge_incoming sample_db_def doubled_db_def)

lemma import_hello_into_other:
  "import_bundle \<lparr>view_db = other_db, current_folder_id = ''r''\<rparr> hello_document uuids =
     Inr (\<lparr>view_db = merged_db, current_folder_id = ''r''\<rparr>, uuids)"
  unfolding import_bundle_def hello_document_loaded
  by (simp add: eval_merge_incoming sample_db_def other_db_def merged_db_def)

lemma import_file_entry_raises:
  "import_bundle_into_folder sample_db hello_bundle ''q'' uuids = Inl ImportError"
  by (simp add: import_bundle_into_folder_def hello_bundle_def hello_content_def sample_db_def
      get_or_def new_id_def ebind_def str_field_def py_iter.simps Node_def Let_def)

section \<open>Importing\<close>

text \<open>
  Claim C2, as amended. Let \<^verbatim>\<open>new_id\<close> return identifiers that are no keys of the store.
  When \<^verbatim>\<open>ExplorerView.import_bundle\<close> returns, every node that was in the store is still
  there under its key, with its identifier, type, name, content and target, its children
  at most extended; and unless the file could not be read, every identifier of the incoming
  store has a node stored under an identifier that was no key before: a generated one if
  the incoming identifier is a key of the store, and the incoming identifier itself if it
  is not. When \<^verbatim>\<open>import_bundle_into_folder\<close> returns, the nodes that were in the store are
  kept in the same way, and if it reports success, every identifier of the bundle is mapped
  to a generated identifier under which a node is stored and which was no key before.
\<close>

theorem import_keeps_existing_ids:
  assumes "fresh s (nodes (view_db v))"
  shows "(\<forall>raw v' s'. import_bundle v raw s = Inr (v', s') \<longrightarrow>
            kept (nodes (view_db v)) (nodes (view_db v'))
            \<and> (v' = v \<or> (\<exists>incoming s1. db_from_dict raw s = Inr (incoming, s1)
                  \<and> (\<forall>old \<in> fst ` set (nodes incoming).
                       \<exists>new. map_of (nodes (view_db v')) new \<noteq> None
                         \<and> map_of (nodes (view_db v)) new = None
                         \<and> (if map_of (nodes (view_db v)) old \<noteq> None then \<exists>j. new = s j
                             else new = old)))))
       \<and> (\<forall>bundle t ok msg d' s'.
            import_bundle_into_folder (view_db v) bundle t s = Inr ((ok, msg), d', s') \<longrightarrow>
            kept (nodes (view_db v)) (nodes d')
            \<and> (ok \<longrightarrow> (\<exists>b raw. bundle = JObj b \<and> map_of b ''nodes'' = Some (JObj raw)
                  \<and> (\<forall>old \<in> fst ` set raw.
                       \<exists>j. map_of (fst (fresh_id_map (map fst raw) [] s)) old = Some (s j)
                         \<and> map_of (nodes d') (s j) \<noteq> None
                         \<and> map_of (nodes (view_db v)) (s j) = None))))"
  apply (rule conjI)
   apply (intro allI impI)
   apply (erule import_bundle_spec [OF assms])
  apply (intro allI impI)
  apply (erule import_bundle_into_folder_spec [OF assms])
  done

theorem import_keeps_existing_ids_witness:
  "fresh uuids (nodes sample_db)
   \<and> map_sum id fst (import_bundle \<lparr>view_db = sample_db, current_folder_id = ''q''\<rparr>
        hello_document uuids) = Inr \<lparr>view_db = doubled_db, current_folder_id = ''q''\<rparr>
   \<and> kept (nodes sample_db) (nodes doubled_db)"
proof -
  let ?v = "\<lparr>view_db = sample_db, current_folder_id = ''q''\<rparr>"
  have f: "fresh uuids (nodes (view_db ?v))"
    by (rule fresh_uuids) (simp add: sample_db_def)
  obtain v' s' where r: "import_bundle ?v hello_document uuids = Inr (v', s')"
    and v': "v' = \<lparr>view_db = doubled_db, current_folder_id = ''q''\<rparr>"
    using import_hello_into_sample
    by (cases "import_bundle ?v hello_document uuids") auto
  from import_keeps_existing_ids [OF f, THEN conjunct1, THEN spec, THEN spec, THEN spec, THEN mp,
      OF r, THEN conjunct1]
  have "kept (nodes sample_db) (nodes doubled_db)" by (simp add: v')
  with f import_hello_into_sample show ?thesis by simp
qed

text \<open>
  The claim as stated fails for \<^verbatim>\<open>ExplorerView.import_bundle\<close>: the identifiers of
  \<open>hello_document\<close> are no keys of \<open>other_db\<close>, and the import stores its nodes under these
  identifiers and takes no new one.
\<close>

theorem import_keeps_bundle_id_counterexample:
  "fresh uuids (nodes other_db)
   \<and> import_bundle \<lparr>view_db = other_db, current_folder_id = ''r''\<rparr> hello_document uuids =
       Inr (\<lparr>view_db = merged_db, current_folder_id = ''r''\<rparr>, uuids)
   \<and> map_of (nodes other_db) ''f'' = None
   \<and> map_of (nodes merged_db) ''f'' = Some ((Node ''f'' File ''Note'')\<lparr>content := Some
        \<lparr>read_doc = JObj [(''text'', JStr ''hello''), (''tags'', JArr [])],
         copy_docs = JArr [JObj [(''text'', JStr ''a''), (''tags'', JArr [])],
                           JObj [(''text'', JStr ''b''), (''tags'', JArr [])]]\<rparr>\<rparr>)"
proof -
  have "fresh uuids (nodes other_db)" by (rule fresh_uuids) (simp add: other_db_def)
  moreover note import_hello_into_other
  moreover have "map_of (nodes other_db) ''f'' = None" by (simp add: other_db_def)
  moreover have "map_of (nodes merged_db) ''f'' = Some ((Node ''f'' File ''Note'')\<lparr>content := Some
        \<lparr>read_doc = JObj [(''text'', JStr ''hello''), (''tags'', JArr [])],
         copy_docs = JArr [JObj [(''text'', JStr ''a''), (''tags'', JArr [])],
                           JObj [(''text'', JStr ''b''), (''tags'', JArr [])]]\<rparr>\<rparr>)"
    by (simp add: merged_db_def)
  ultimately show ?thesis by (intro conjI)
qed


end
